theory Spec2Isabelle
  imports Main "HOL-Library.Word" "HOL-Library.Signed_Division" "HOL-Library.Monad_Syntax"
begin

unbundle bit_operations_syntax

section \<open>Data model of \<^verbatim>\<open>tetris.c\<close>\<close>

text \<open>
  The game keeps its state in global variables; the model passes them explicitly.
  A C \<^verbatim>\<open>int\<close> is modelled by \<^typ>\<open>int\<close> (signed overflow is undefined in C, and
  no number of the game comes near the 32-bit range), the \<^verbatim>\<open>unsigned int\<close> state of
  the random generator by a 32-bit word, a \<^verbatim>\<open>uint16_t\<close> shape mask by a 16-bit
  word and a \<^verbatim>\<open>char\<close> board cell by an 8-bit word.

  The array \<^verbatim>\<open>board.cells[BOARD_HEIGHT][BOARD_WIDTH]\<close> is a function from an index
  pair \<open>(y, x)\<close> to a cell. Only the indices inside the array mean anything; a write
  outside the array, and a read of the shape table outside its bounds, is undefined in
  C and is the result \<open>None\<close> in the model.

  Drawing (\<^verbatim>\<open>draw_board\<close>, \<^verbatim>\<open>draw_score\<close>), \<^verbatim>\<open>delay\<close> and the writes
  to the timer registers do not touch the game state and are left out.
\<close>

type_synonym cell = "8 word"
type_synonym board = "int \<times> int \<Rightarrow> cell"

definition BOARD_WIDTH :: int where "BOARD_WIDTH = 20"
definition BOARD_HEIGHT :: int where "BOARD_HEIGHT = 20"
definition BLACK :: cell where "BLACK = 0"

definition SCORE_SINGLE :: int where "SCORE_SINGLE = 100"
definition SCORE_DOUBLE :: int where "SCORE_DOUBLE = 300"
definition SCORE_TRIPLE :: int where "SCORE_TRIPLE = 500"
definition SCORE_TETRIS :: int where "SCORE_TETRIS = 800"

definition DIR_DOWN :: int where "DIR_DOWN = 0"
definition DIR_UP :: int where "DIR_UP = 1"
definition DIR_LEFT :: int where "DIR_LEFT = 2"
definition DIR_RIGHT :: int where "DIR_RIGHT = 3"

definition TETROMINOS :: "16 word list list" where
  "TETROMINOS =
    [[0x0F00, 0x2222, 0x0F00, 0x2222],
     [0x8E00, 0x6440, 0x0E20, 0x44C0],
     [0x2E00, 0x4460, 0x0E80, 0xC440],
     [0x6600, 0x6600, 0x6600, 0x6600],
     [0x6C00, 0x4620, 0x6C00, 0x4620],
     [0x4E00, 0x4640, 0x0E40, 0x4C40],
     [0xC600, 0x2640, 0xC600, 0x2640]]"

record Piece =
  x :: int
  y :: int
  type :: int
  rotation :: int
  direction :: int

text \<open>\<^verbatim>\<open>TETROMINOS[p->type][p->rotation]\<close>; \<open>None\<close> outside the 7 by 4 table.\<close>

definition tetromino :: "Piece \<Rightarrow> 16 word option" where
  "tetromino p =
     (if 0 \<le> type p \<and> type p < 7 \<and> 0 \<le> rotation p \<and> rotation p < 4
      then Some (TETROMINOS ! nat (type p) ! nat (rotation p))
      else None)"

text \<open>The test \<^verbatim>\<open>(shape >> (15 - (y * 4 + x))) & 1\<close> of the three shape loops.\<close>

definition shape_bit :: "16 word \<Rightarrow> int \<Rightarrow> int \<Rightarrow> bool" where
  "shape_bit shape sy sx = (drop_bit (nat (15 - (sy * 4 + sx))) shape AND 1 \<noteq> 0)"

section \<open>Collision checker\<close>

text \<open>
  \<^verbatim>\<open>check_collision\<close>: two nested loops over the 4 by 4 shape that return 1 at the
  first occupied shape cell that is off the board or on a cell that is not BLACK. The
  board is read only after the four bounds tests have failed.
\<close>

fun collision_row :: "board \<Rightarrow> Piece \<Rightarrow> 16 word \<Rightarrow> int \<Rightarrow> int list \<Rightarrow> bool" where
  "collision_row b p shape sy [] = False"
| "collision_row b p shape sy (sx # sxs) =
     (if shape_bit shape sy sx then
        (let boardX = x p + sx; boardY = y p + sy in
         if boardX < 0 \<or> boardX \<ge> BOARD_WIDTH \<or> boardY < 0 \<or> boardY \<ge> BOARD_HEIGHT
            \<or> b (boardY, boardX) \<noteq> BLACK
         then True
         else collision_row b p shape sy sxs)
      else collision_row b p shape sy sxs)"

fun collision_rows :: "board \<Rightarrow> Piece \<Rightarrow> 16 word \<Rightarrow> int list \<Rightarrow> bool" where
  "collision_rows b p shape [] = False"
| "collision_rows b p shape (sy # sys) =
     (if collision_row b p shape sy [0, 1, 2, 3] then True
      else collision_rows b p shape sys)"

definition check_collision :: "board \<Rightarrow> Piece \<Rightarrow> bool option" where
  "check_collision b p =
     (case tetromino p of
        None \<Rightarrow> None
      | Some shape \<Rightarrow> Some (collision_rows b p shape [0, 1, 2, 3]))"

section \<open>Locking and rotation\<close>

text \<open>
  \<^verbatim>\<open>lock_piece\<close> writes \<^verbatim>\<open>currentPiece.type + 1\<close>, converted to \<^verbatim>\<open>char\<close>,
  into \<^verbatim>\<open>board.cells[currentPiece.y + y][currentPiece.x + x]\<close> for every occupied
  shape cell, with no test of the indices.
\<close>

definition write_cell :: "board \<Rightarrow> int \<Rightarrow> int \<Rightarrow> cell \<Rightarrow> board option" where
  "write_cell b cy cx v =
     (if 0 \<le> cy \<and> cy < BOARD_HEIGHT \<and> 0 \<le> cx \<and> cx < BOARD_WIDTH
      then Some (b((cy, cx) := v))
      else None)"

fun lock_row :: "Piece \<Rightarrow> 16 word \<Rightarrow> int \<Rightarrow> int list \<Rightarrow> board \<Rightarrow> board option" where
  "lock_row p shape sy [] b = Some b"
| "lock_row p shape sy (sx # sxs) b =
     (if shape_bit shape sy sx then
        (case write_cell b (y p + sy) (x p + sx) (word_of_int (type p + 1)) of
           None \<Rightarrow> None
         | Some b' \<Rightarrow> lock_row p shape sy sxs b')
      else lock_row p shape sy sxs b)"

fun lock_rows :: "Piece \<Rightarrow> 16 word \<Rightarrow> int list \<Rightarrow> board \<Rightarrow> board option" where
  "lock_rows p shape [] b = Some b"
| "lock_rows p shape (sy # sys) b =
     (case lock_row p shape sy [0, 1, 2, 3] b of
        None \<Rightarrow> None
      | Some b' \<Rightarrow> lock_rows p shape sys b')"

definition lock_piece :: "board \<Rightarrow> Piece \<Rightarrow> board option" where
  "lock_piece b p =
     (case tetromino p of
        None \<Rightarrow> None
      | Some shape \<Rightarrow> lock_rows p shape [0, 1, 2, 3] b)"

text \<open>
  \<^verbatim>\<open>rotate_piece\<close>; the C operator \<^verbatim>\<open>%\<close> truncates towards zero, as \<open>smod\<close>
  does.
\<close>

definition rotate_piece :: "board \<Rightarrow> Piece \<Rightarrow> Piece option" where
  "rotate_piece b p =
     (let oldRotation = rotation p;
          p' = p\<lparr>rotation := (rotation p + 1) smod 4\<rparr>
      in case check_collision b p' of
           None \<Rightarrow> None
         | Some c \<Rightarrow> Some (if c then p'\<lparr>rotation := oldRotation\<rparr> else p'))"

section \<open>Gravity resolver\<close>

text \<open>
  \<^verbatim>\<open>apply_gravity\<close> repeats one sweep until the sweep moves no cell. All six
  loops of a sweep have the same body: a cell that is not BLACK and whose neighbour in
  the fall direction is BLACK moves to that neighbour, and \<^verbatim>\<open>changes\<close> is
  incremented.
\<close>

definition centerX :: int where "centerX = BOARD_WIDTH div 2"
definition centerY :: int where "centerY = BOARD_HEIGHT div 2"

definition fall_step :: "int \<times> int \<Rightarrow> int \<times> int \<Rightarrow> board \<times> int \<Rightarrow> board \<times> int" where
  "fall_step src dst s =
     (case s of (b, changes) \<Rightarrow>
        if b src \<noteq> BLACK \<and> b dst = BLACK
        then (b(dst := b src, src := BLACK), changes + 1)
        else (b, changes))"

text \<open>Rows 1 to \<open>centerY - 1\<close>, each cell falling to the row above.\<close>

definition fall_up :: "board \<times> int \<Rightarrow> board \<times> int" where
  "fall_up =
     fold (\<lambda>cy. fold (\<lambda>cx. fall_step (cy, cx) (cy - 1, cx)) [0..BOARD_WIDTH - 1])
       [1..centerY - 1]"

text \<open>Rows \<open>BOARD_HEIGHT - 2\<close> down to \<open>centerY\<close>, each cell falling to the row below.\<close>

definition fall_down :: "board \<times> int \<Rightarrow> board \<times> int" where
  "fall_down =
     fold (\<lambda>cy. fold (\<lambda>cx. fall_step (cy, cx) (cy + 1, cx)) [0..BOARD_WIDTH - 1])
       (rev [centerY..BOARD_HEIGHT - 2])"

text \<open>
  Columns \<open>BOARD_WIDTH - 2\<close> down to \<open>centerX\<close>, each cell falling to the column on
  its right; the rows are those of the top half or of the bottom half.
\<close>

definition fall_right :: "int list \<Rightarrow> board \<times> int \<Rightarrow> board \<times> int" where
  "fall_right rows =
     fold (\<lambda>cx. fold (\<lambda>cy. fall_step (cy, cx) (cy, cx + 1)) rows)
       (rev [centerX..BOARD_WIDTH - 2])"

text \<open>Columns 1 to \<open>centerX - 1\<close>, each cell falling to the column on its left.\<close>

definition fall_left :: "int list \<Rightarrow> board \<times> int \<Rightarrow> board \<times> int" where
  "fall_left rows =
     fold (\<lambda>cx. fold (\<lambda>cy. fall_step (cy, cx) (cy, cx - 1)) rows)
       [1..centerX - 1]"

text \<open>The body of the \<^verbatim>\<open>do ... while\<close> loop, starting from \<^verbatim>\<open>changes = 0\<close>.\<close>

definition gravity_sweep :: "int \<Rightarrow> int \<Rightarrow> board \<Rightarrow> board \<times> int" where
  "gravity_sweep clearedRow clearedCol b =
     (let s0 = (b, 0);
          s1 = (if clearedRow \<noteq> -1
                then (if clearedRow < centerY then fall_up s0 else fall_down s0)
                else s0)
      in if clearedCol \<noteq> -1
         then (let s2 = (if clearedCol \<ge> centerX
                         then fall_right [0..centerY - 1] s1
                         else fall_left [0..centerY - 1] s1)
               in if clearedCol \<ge> centerX
                  then fall_right [centerY..BOARD_HEIGHT - 1] s2
                  else fall_left [centerY..BOARD_HEIGHT - 1] s2)
         else s1)"

partial_function (option) apply_gravity :: "board \<Rightarrow> int \<Rightarrow> int \<Rightarrow> board option" where
  "apply_gravity b clearedRow clearedCol =
     (case gravity_sweep clearedRow clearedCol b of
        (b', changes) \<Rightarrow>
          if changes > 0 then apply_gravity b' clearedRow clearedCol else Some b')"

section \<open>Line clear resolver\<close>

record Game =
  board :: board
  currentPiece :: Piece
  gameOver :: int
  score :: int
  speed :: int
  randState :: "32 word"

text \<open>
  The inner loops of \<^verbatim>\<open>check_lines\<close>: \<^verbatim>\<open>complete\<close> starts at 1 and the loop
  stops with 0 at the first BLACK cell of the row (of the column).
\<close>

fun row_complete :: "board \<Rightarrow> int \<Rightarrow> int list \<Rightarrow> bool" where
  "row_complete b cy [] = True"
| "row_complete b cy (cx # cxs) = (if b (cy, cx) = BLACK then False else row_complete b cy cxs)"

fun col_complete :: "board \<Rightarrow> int \<Rightarrow> int list \<Rightarrow> bool" where
  "col_complete b cx [] = True"
| "col_complete b cx (cy # cys) = (if b (cy, cx) = BLACK then False else col_complete b cx cys)"

definition clear_row :: "int \<Rightarrow> board \<Rightarrow> board" where
  "clear_row cy = fold (\<lambda>cx b. b((cy, cx) := BLACK)) [0..BOARD_WIDTH - 1]"

definition clear_col :: "int \<Rightarrow> board \<Rightarrow> board" where
  "clear_col cx = fold (\<lambda>cy b. b((cy, cx) := BLACK)) [0..BOARD_HEIGHT - 1]"

text \<open>
  One round of the loop over the rows (over the columns). The state is the board,
  \<^verbatim>\<open>linesCleared\<close> and \<^verbatim>\<open>lastClearedRow\<close> (\<^verbatim>\<open>lastClearedCol\<close>).
\<close>

definition scan_row :: "int \<Rightarrow> board \<times> int \<times> int \<Rightarrow> board \<times> int \<times> int" where
  "scan_row cy s =
     (case s of (b, linesCleared, lastClearedRow) \<Rightarrow>
        if row_complete b cy [0..BOARD_WIDTH - 1]
        then (clear_row cy b, linesCleared + 1, cy)
        else (b, linesCleared, lastClearedRow))"

definition scan_col :: "int \<Rightarrow> board \<times> int \<times> int \<Rightarrow> board \<times> int \<times> int" where
  "scan_col cx s =
     (case s of (b, linesCleared, lastClearedCol) \<Rightarrow>
        if col_complete b cx [0..BOARD_HEIGHT - 1]
        then (clear_col cx b, linesCleared + 1, cx)
        else (b, linesCleared, lastClearedCol))"

text \<open>
  The two scans of \<^verbatim>\<open>check_lines\<close>, first all rows, then all columns, on the one
  board. The result is the board, \<^verbatim>\<open>linesCleared\<close>, \<^verbatim>\<open>lastClearedRow\<close> and
  \<^verbatim>\<open>lastClearedCol\<close>.
\<close>

definition scan_rows :: "board \<Rightarrow> board \<times> int \<times> int" where
  "scan_rows b = fold scan_row [0..BOARD_HEIGHT - 1] (b, 0, -1)"

definition scan_lines :: "board \<Rightarrow> board \<times> int \<times> int \<times> int" where
  "scan_lines b =
     (case scan_rows b of
        (b1, rowsCleared, lastClearedRow) \<Rightarrow>
          (case fold scan_col [0..BOARD_WIDTH - 1] (b1, rowsCleared, -1) of
             (b2, linesCleared, lastClearedCol) \<Rightarrow>
               (b2, linesCleared, lastClearedRow, lastClearedCol)))"

text \<open>The \<^verbatim>\<open>switch (linesCleared)\<close>: four cases and no default.\<close>

definition update_score :: "int \<Rightarrow> Game \<Rightarrow> Game" where
  "update_score linesCleared g =
     (if linesCleared = 1 then
        (let g1 = g\<lparr>score := score g + SCORE_SINGLE\<rparr>
         in if speed g1 > 1000 then g1\<lparr>speed := speed g1 - score g1 * 400\<rparr> else g1)
      else if linesCleared = 2 then
        (let g1 = g\<lparr>score := score g + SCORE_DOUBLE\<rparr>
         in if speed g1 > 1000 then g1\<lparr>speed := speed g1 - score g1 * 400 * 2\<rparr> else g1)
      else if linesCleared = 3 then
        (let g1 = g\<lparr>score := score g + SCORE_TRIPLE\<rparr>
         in if speed g1 > 1000 then g1\<lparr>speed := speed g1 - score g1 * 400 * 3\<rparr> else g1)
      else if linesCleared = 4 then
        (let g1 = g\<lparr>score := score g + SCORE_TETRIS\<rparr>
         in if speed g1 > 1000 then g1\<lparr>speed := speed g1 - score g1 * 400 * 4\<rparr> else g1)
      else g)"

definition check_lines :: "Game \<Rightarrow> Game option" where
  "check_lines g =
     (case scan_lines (board g) of
        (b2, linesCleared, lastClearedRow, lastClearedCol) \<Rightarrow>
          (case (if lastClearedRow \<noteq> -1 \<or> lastClearedCol \<noteq> -1
                 then apply_gravity b2 lastClearedRow lastClearedCol
                 else Some b2) of
             None \<Rightarrow> None
           | Some b3 \<Rightarrow> Some (update_score linesCleared (g\<lparr>board := b3\<rparr>))))"

section \<open>Spawning and the movement tick\<close>

text \<open>\<^verbatim>\<open>my_rand\<close>: the result and the new \<^verbatim>\<open>randState\<close>.\<close>

definition my_rand :: "32 word \<Rightarrow> int \<times> 32 word" where
  "my_rand st =
     (let st' = st * 1103515245 + 12345
      in (uint (drop_bit 16 st' AND 0x7fff), st'))"

definition spawn_piece :: "Game \<Rightarrow> Game option" where
  "spawn_piece g =
     (case my_rand (randState g) of
        (r1, st1) \<Rightarrow>
          (case my_rand st1 of
             (r2, st2) \<Rightarrow>
               (let p = \<lparr>x = BOARD_WIDTH div 2 - 2, y = BOARD_HEIGHT div 2 - 2,
                         type = r1 smod 7, rotation = 0, direction = r2 smod 4\<rparr>;
                    g' = g\<lparr>currentPiece := p, randState := st2\<rparr>
                in case check_collision (board g') p of
                     None \<Rightarrow> None
                   | Some c \<Rightarrow> Some (if c then g'\<lparr>gameOver := 1\<rparr> else g'))))"

text \<open>The two \<^verbatim>\<open>switch (currentPiece.direction)\<close> of \<^verbatim>\<open>handle_tick_movement\<close>.\<close>

definition move_piece :: "Piece \<Rightarrow> Piece" where
  "move_piece p =
     (if direction p = DIR_DOWN then p\<lparr>y := y p + 1\<rparr>
      else if direction p = DIR_UP then p\<lparr>y := y p - 1\<rparr>
      else if direction p = DIR_LEFT then p\<lparr>x := x p - 1\<rparr>
      else if direction p = DIR_RIGHT then p\<lparr>x := x p + 1\<rparr>
      else p)"

definition undo_move :: "Piece \<Rightarrow> Piece" where
  "undo_move p =
     (if direction p = DIR_DOWN then p\<lparr>y := y p - 1\<rparr>
      else if direction p = DIR_UP then p\<lparr>y := y p + 1\<rparr>
      else if direction p = DIR_LEFT then p\<lparr>x := x p + 1\<rparr>
      else if direction p = DIR_RIGHT then p\<lparr>x := x p - 1\<rparr>
      else p)"

definition handle_tick_movement :: "Game \<Rightarrow> Game option" where
  "handle_tick_movement g =
     (let g1 = g\<lparr>currentPiece := move_piece (currentPiece g)\<rparr>
      in case check_collision (board g1) (currentPiece g1) of
           None \<Rightarrow> None
         | Some False \<Rightarrow> Some g1
         | Some True \<Rightarrow>
             (let g2 = g1\<lparr>currentPiece := undo_move (currentPiece g1)\<rparr>
              in case lock_piece (board g2) (currentPiece g2) of
                   None \<Rightarrow> None
                 | Some b' \<Rightarrow>
                     (case check_lines (g2\<lparr>board := b'\<rparr>) of
                        None \<Rightarrow> None
                      | Some g3 \<Rightarrow> spawn_piece g3)))"

section \<open>Notions used in the proofs\<close>

text \<open>The index pairs inside the array \<^verbatim>\<open>board.cells\<close>.\<close>

definition in_board :: "int \<times> int \<Rightarrow> bool" where
  "in_board c = (case c of (cy, cx) \<Rightarrow> 0 \<le> cy \<and> cy < 20 \<and> 0 \<le> cx \<and> cx < 20)"

text \<open>The board cells that \<^verbatim>\<open>lock_piece\<close> writes for the shape rows of a list.\<close>

definition row_targets :: "Piece \<Rightarrow> 16 word \<Rightarrow> int \<Rightarrow> int list \<Rightarrow> (int \<times> int) set" where
  "row_targets p shape sy sxs =
     (\<lambda>sx. (y p + sy, x p + sx)) ` {sx \<in> set sxs. shape_bit shape sy sx}"

definition targets :: "Piece \<Rightarrow> 16 word \<Rightarrow> int list \<Rightarrow> (int \<times> int) set" where
  "targets p shape sys = (\<Union>sy \<in> set sys. row_targets p shape sy [0, 1, 2, 3])"

text \<open>
  The distance of a cell to the edges it can fall to: rows of the top half fall to
  row 0 and rows of the bottom half to row 19, columns of the left half fall to column 0
  and columns of the right half to column 19. The potential of a board is the sum of the
  distances of its occupied cells.
\<close>

definition weight :: "int \<times> int \<Rightarrow> nat" where
  "weight c =
     (case c of (cy, cx) \<Rightarrow>
        nat (if cy < 10 then cy else 19 - cy) + nat (if cx < 10 then cx else 19 - cx))"

definition potential :: "board \<Rightarrow> nat" where
  "potential b = (\<Sum>c \<in> {0..<20} \<times> {0..<20}. if b c = BLACK then 0 else weight c)"

text \<open>A move of one cell towards its edge inside the array.\<close>

definition good_move :: "int \<times> int \<Rightarrow> int \<times> int \<Rightarrow> bool" where
  "good_move src dst \<longleftrightarrow> in_board src \<and> in_board dst \<and> weight src = Suc (weight dst)"

text \<open>A part of a sweep conserves the sum of the potential and the counter of moves.\<close>

definition conserving :: "(board \<times> int \<Rightarrow> board \<times> int) \<Rightarrow> bool" where
  "conserving F \<longleftrightarrow>
     (\<forall>b n. int (potential (fst (F (b, n)))) + snd (F (b, n)) = int (potential b) + n)"

text \<open>
  A part of a sweep never lowers the counter, and when it leaves the counter as it was it
  has left the board as it was and has found every move of \<open>M\<close> blocked or idle.
\<close>

definition quiet :: "(board \<times> int \<Rightarrow> board \<times> int) \<Rightarrow> ((int \<times> int) \<times> (int \<times> int)) set \<Rightarrow> bool" where
  "quiet F M \<longleftrightarrow>
     (\<forall>b n. n \<le> snd (F (b, n)) \<and>
        (snd (F (b, n)) = n \<longrightarrow>
           fst (F (b, n)) = b \<and> (\<forall>m \<in> M. b (fst m) \<noteq> BLACK \<longrightarrow> b (snd m) \<noteq> BLACK)))"

text \<open>The moves that the loops of a sweep attempt.\<close>

definition moves_up :: "((int \<times> int) \<times> (int \<times> int)) set" where
  "moves_up = (\<lambda>(cy, cx). ((cy, cx), (cy - 1, cx))) ` ({1..9} \<times> {0..19})"

definition moves_down :: "((int \<times> int) \<times> (int \<times> int)) set" where
  "moves_down = (\<lambda>(cy, cx). ((cy, cx), (cy + 1, cx))) ` ({10..18} \<times> {0..19})"

definition moves_right :: "((int \<times> int) \<times> (int \<times> int)) set" where
  "moves_right = (\<lambda>(cy, cx). ((cy, cx), (cy, cx + 1))) ` ({0..19} \<times> {10..18})"

definition moves_left :: "((int \<times> int) \<times> (int \<times> int)) set" where
  "moves_left = (\<lambda>(cy, cx). ((cy, cx), (cy, cx - 1))) ` ({0..19} \<times> {1..9})"

definition sweep_moves :: "int \<Rightarrow> int \<Rightarrow> ((int \<times> int) \<times> (int \<times> int)) set" where
  "sweep_moves clearedRow clearedCol =
     (if clearedRow = -1 then {} else if clearedRow < 10 then moves_up else moves_down) \<union>
     (if clearedCol = -1 then {} else if clearedCol \<ge> 10 then moves_right else moves_left)"

text \<open>
  The flag \<^verbatim>\<open>complete\<close> after the inner loop of \<^verbatim>\<open>check_lines\<close> over
  a row (a column) of a board.
\<close>

definition full_row :: "board \<Rightarrow> int \<Rightarrow> bool" where
  "full_row b cy = row_complete b cy [0..BOARD_WIDTH - 1]"

definition full_col :: "board \<Rightarrow> int \<Rightarrow> bool" where
  "full_col b cx = col_complete b cx [0..BOARD_HEIGHT - 1]"

section \<open>Boards and pieces of the worked examples\<close>

text \<open>Three cells near the top right corner, before and after the resolver has run.\<close>

definition B0 :: board where
  "B0 = (\<lambda>c. if c = (1, 19) \<or> c = (2, 19) \<or> c = (0, 17) then 3 else 0)"

definition B1 :: board where
  "B1 = (\<lambda>c. if c = (0, 19) \<or> c = (1, 19) \<or> c = (0, 18) then 3 else 0)"

text \<open>Three cells near the bottom left corner, before and after the resolver has run.\<close>

definition B2 :: board where
  "B2 = (\<lambda>c. if c = (18, 0) \<or> c = (17, 0) \<or> c = (19, 2) then 5 else 0)"

definition B3 :: board where
  "B3 = (\<lambda>c. if c = (19, 0) \<or> c = (18, 0) \<or> c = (19, 1) then 5 else 0)"

text \<open>Row 0 and column 0 full, and what the two scans leave of it.\<close>

definition X0 :: board where
  "X0 = (\<lambda>c. if in_board c \<and> (fst c = 0 \<or> snd c = 0) then 1 else 0)"

definition X1 :: board where
  "X1 = (\<lambda>c. if in_board c \<and> snd c = 0 \<and> fst c \<noteq> 0 then 1 else 0)"

text \<open>The rows from \<open>k\<close> to the bottom row full.\<close>

definition rows_from :: "int \<Rightarrow> board" where
  "rows_from k = (\<lambda>c. if in_board c \<and> k \<le> fst c then 7 else 0)"

text \<open>A game with a given board, score and fall period.\<close>

definition game_with :: "board \<Rightarrow> int \<Rightarrow> int \<Rightarrow> Game" where
  "game_with b sc sp =
     \<lparr>board = b,
      currentPiece = \<lparr>x = 8, y = 8, type = 0, rotation = 0, direction = 0\<rparr>,
      gameOver = 0, score = sc, speed = sp, randState = 1\<rparr>"

text \<open>One pass of the line clear resolver after the bottom row has been filled.\<close>

definition single_pass :: "Game \<Rightarrow> Game option" where
  "single_pass g = check_lines (g\<lparr>board := rows_from 19\<rparr>)"

text \<open>A game on the empty board with the I piece at a given place, moving in a given direction.\<close>

definition tick_game :: "int \<Rightarrow> int \<Rightarrow> int \<Rightarrow> Game" where
  "tick_game px py d =
     \<lparr>board = \<lambda>_. 0,
      currentPiece = \<lparr>x = px, y = py, type = 0, rotation = 0, direction = d\<rparr>,
      gameOver = 0, score = 0, speed = 899999, randState = 1\<rparr>"

section \<open>Properties of the collision checker\<close>

lemma collision_row_iff:
  "collision_row b p shape sy sxs \<longleftrightarrow>
     (\<exists>sx \<in> set sxs. shape_bit shape sy sx \<and>
        (x p + sx < 0 \<or> x p + sx \<ge> BOARD_WIDTH \<or> y p + sy < 0 \<or> y p + sy \<ge> BOARD_HEIGHT
         \<or> b (y p + sy, x p + sx) \<noteq> BLACK))"
  by (induction sxs) (auto simp: Let_def)

lemma collision_rows_iff:
  "collision_rows b p shape sys \<longleftrightarrow>
     (\<exists>sy \<in> set sys. collision_row b p shape sy [0, 1, 2, 3])"
  by (induction sys) auto

lemma tetromino_Some:
  "0 \<le> type p \<Longrightarrow> type p < 7 \<Longrightarrow> 0 \<le> rotation p \<Longrightarrow> rotation p < 4 \<Longrightarrow>
   \<exists>shape. tetromino p = Some shape"
  by (simp add: tetromino_def)

text \<open>
  C5. For every board and every placement of one of the 7 kinds in one of the 4
  rotations, the collision checker reports a collision exactly when some occupied cell
  of the 4 by 4 shape, moved by the position of the piece, is outside the 20 by 20 board
  or on a board cell that is not empty. The checker only returns this flag: it has no
  board or piece among its results.
\<close>

theorem check_collision_iff:
  assumes "0 \<le> type p" "type p < 7" "0 \<le> rotation p" "rotation p < 4"
  shows "\<exists>shape. tetromino p = Some shape \<and>
     check_collision b p = Some
       (\<exists>sy \<in> {0, 1, 2, 3}. \<exists>sx \<in> {0, 1, 2, 3}. shape_bit shape sy sx \<and>
          (x p + sx < 0 \<or> x p + sx \<ge> 20 \<or> y p + sy < 0 \<or> y p + sy \<ge> 20
           \<or> b (y p + sy, x p + sx) \<noteq> 0))"
proof -
  from assms obtain shape where s: "tetromino p = Some shape"
    using tetromino_Some by blast
  have "check_collision b p = Some (collision_rows b p shape [0, 1, 2, 3])"
    by (simp add: check_collision_def s)
  also have "collision_rows b p shape [0, 1, 2, 3] \<longleftrightarrow>
       (\<exists>sy \<in> {0, 1, 2, 3}. \<exists>sx \<in> {0, 1, 2, 3}. shape_bit shape sy sx \<and>
          (x p + sx < 0 \<or> x p + sx \<ge> 20 \<or> y p + sy < 0 \<or> y p + sy \<ge> 20
           \<or> b (y p + sy, x p + sx) \<noteq> 0))"
    unfolding collision_rows_iff collision_row_iff BOARD_WIDTH_def BOARD_HEIGHT_def BLACK_def
    by simp
  finally show ?thesis using s by blast
qed

theorem check_collision_iff_witness:
  "check_collision (\<lambda>_. 0) \<lparr>x = 18, y = 8, type = 0, rotation = 0, direction = 0\<rparr> = Some True
   \<and> check_collision (\<lambda>_. 0) \<lparr>x = 8, y = 8, type = 0, rotation = 0, direction = 0\<rparr> = Some False
   \<and> check_collision B1 \<lparr>x = 16, y = 0, type = 3, rotation = 0, direction = 0\<rparr> = Some True"
  using check_collision_iff [of "\<lparr>x = 18, y = 8, type = 0, rotation = 0, direction = 0\<rparr>" "\<lambda>_. 0"]
    check_collision_iff [of "\<lparr>x = 8, y = 8, type = 0, rotation = 0, direction = 0\<rparr>" "\<lambda>_. 0"]
    check_collision_iff [of "\<lparr>x = 16, y = 0, type = 3, rotation = 0, direction = 0\<rparr>" B1]
  by (simp add: tetromino_def TETROMINOS_def shape_bit_def B1_def)

section \<open>Properties of locking\<close>

lemma row_targets_Nil: "row_targets p shape sy [] = {}"
  by (simp add: row_targets_def)

lemma row_targets_Cons:
  "row_targets p shape sy (sx # sxs) =
     (if shape_bit shape sy sx then insert (y p + sy, x p + sx) (row_targets p shape sy sxs)
      else row_targets p shape sy sxs)"
  unfolding row_targets_def by (cases "shape_bit shape sy sx") auto

lemma write_cell_in_board:
  "in_board (cy, cx) \<Longrightarrow> write_cell b cy cx v = Some (b((cy, cx) := v))"
  by (simp add: write_cell_def in_board_def BOARD_WIDTH_def BOARD_HEIGHT_def)

lemma lock_row_spec:
  assumes "\<forall>c \<in> row_targets p shape sy sxs. in_board c"
  shows "lock_row p shape sy sxs b =
           Some (\<lambda>c. if c \<in> row_targets p shape sy sxs then word_of_int (type p + 1) else b c)"
  using assms
proof (induction sxs arbitrary: b)
  case Nil
  then show ?case by (simp add: row_targets_Nil)
next
  case (Cons sx sxs)
  show ?case
  proof (cases "shape_bit shape sy sx")
    case False
    then have e: "row_targets p shape sy (sx # sxs) = row_targets p shape sy sxs"
      by (simp add: row_targets_Cons)
    with Cons.prems Cons.IH [of b] False show ?thesis by simp
  next
    case True
    define k where "k = (y p + sy, x p + sx)"
    define v :: cell where "v = word_of_int (type p + 1)"
    from True have e: "row_targets p shape sy (sx # sxs) = insert k (row_targets p shape sy sxs)"
      by (simp add: row_targets_Cons k_def)
    with Cons.prems have "in_board k" and pre: "\<forall>c \<in> row_targets p shape sy sxs. in_board c"
      by simp_all
    then have w: "write_cell b (y p + sy) (x p + sx) v = Some (b(k := v))"
      using write_cell_in_board [of "y p + sy" "x p + sx" b v] by (simp add: k_def)
    have "lock_row p shape sy (sx # sxs) b = lock_row p shape sy sxs (b(k := v))"
      using True w by (simp add: v_def)
    also have "\<dots> = Some (\<lambda>c. if c \<in> row_targets p shape sy sxs then v else (b(k := v)) c)"
      using Cons.IH [OF pre, of "b(k := v)"] by (simp only: v_def)
    also have "(\<lambda>c. if c \<in> row_targets p shape sy sxs then v else (b(k := v)) c)
        = (\<lambda>c. if c \<in> insert k (row_targets p shape sy sxs) then v else b c)"
      by (rule ext) simp
    finally show ?thesis by (simp only: e v_def)
  qed
qed


lemma lock_rows_spec:
  assumes "\<forall>c \<in> targets p shape sys. in_board c"
  shows "lock_rows p shape sys b =
           Some (\<lambda>c. if c \<in> targets p shape sys then word_of_int (type p + 1) else b c)"
  using assms
proof (induction sys arbitrary: b)
  case Nil
  then show ?case by (simp add: targets_def)
next
  case (Cons sy sys)
  define v :: cell where "v = word_of_int (type p + 1)"
  define R where "R = row_targets p shape sy [0, 1, 2, 3]"
  have e: "targets p shape (sy # sys) = R \<union> targets p shape sys"
    by (simp add: targets_def R_def)
  with Cons.prems have r: "\<forall>c \<in> R. in_board c" and pre: "\<forall>c \<in> targets p shape sys. in_board c"
    by simp_all
  have "lock_row p shape sy [0, 1, 2, 3] b = Some (\<lambda>c. if c \<in> R then v else b c)"
    using lock_row_spec [of p shape sy "[0, 1, 2, 3]" b] r by (simp only: R_def v_def)
  then have "lock_rows p shape (sy # sys) b = lock_rows p shape sys (\<lambda>c. if c \<in> R then v else b c)"
    by simp
  also have "\<dots> = Some (\<lambda>c. if c \<in> targets p shape sys then v
                            else (\<lambda>c. if c \<in> R then v else b c) c)"
    using Cons.IH [OF pre, of "\<lambda>c. if c \<in> R then v else b c"] by (simp only: v_def)
  also have "(\<lambda>c. if c \<in> targets p shape sys then v else (\<lambda>c. if c \<in> R then v else b c) c)
      = (\<lambda>c. if c \<in> R \<union> targets p shape sys then v else b c)"
    by (rule ext) simp
  finally show ?case by (simp only: e v_def)
qed

lemma targets_iff:
  "(cy, cx) \<in> targets p shape [0, 1, 2, 3] \<longleftrightarrow>
     (\<exists>sy \<in> {0, 1, 2, 3}. \<exists>sx \<in> {0, 1, 2, 3}.
        shape_bit shape sy sx \<and> cy = y p + sy \<and> cx = x p + sx)"
proof -
  have e: "set [0, 1, 2, 3] = {0, 1, 2, 3::int}" by simp
  show ?thesis
    unfolding targets_def row_targets_def e by blast
qed

lemma no_collision_targets:
  assumes "\<not> collision_rows b p shape sys"
  shows "\<forall>c \<in> targets p shape sys. in_board c \<and> b c = BLACK"
proof
  fix c assume "c \<in> targets p shape sys"
  then obtain sy sx where sy: "sy \<in> set sys" and sx: "sx \<in> set [0, 1, 2, 3]"
    and bit: "shape_bit shape sy sx" and c: "c = (y p + sy, x p + sx)"
    unfolding targets_def row_targets_def by blast
  from assms sy have "\<not> collision_row b p shape sy [0, 1, 2, 3]"
    by (simp add: collision_rows_iff)
  with sx bit have "\<not> (x p + sx < 0 \<or> x p + sx \<ge> BOARD_WIDTH \<or> y p + sy < 0 \<or> y p + sy \<ge> BOARD_HEIGHT
         \<or> b (y p + sy, x p + sx) \<noteq> BLACK)"
    unfolding collision_row_iff by blast
  then show "in_board c \<and> b c = BLACK"
    by (simp add: c in_board_def BOARD_WIDTH_def BOARD_HEIGHT_def not_le not_less)
qed

lemma tetromino_range:
  "tetromino p = Some shape \<Longrightarrow> 0 \<le> type p \<and> type p < 7 \<and> 0 \<le> rotation p \<and> rotation p < 4"
  by (simp add: tetromino_def split: if_splits)

lemma colour_tag:
  assumes "0 \<le> k" "k < 7"
  shows "uint (word_of_int (k + 1) :: cell) = k + 1"
proof -
  from assms have "k \<in> {0, 1, 2, 3, 4, 5, 6}" by auto
  then show ?thesis by auto
qed

text \<open>
  C9. For every board and every piece whose placement the collision checker accepts,
  locking the piece returns a board that holds the colour tag of the piece, its kind
  plus 1, in exactly the cells under the occupied cells of its shape, and that is the
  old board in every other cell.
\<close>

theorem lock_piece_footprint:
  assumes "check_collision b p = Some False"
  shows "\<exists>shape b'. tetromino p = Some shape \<and> lock_piece b p = Some b' \<and>
     (\<forall>cy cx. if \<exists>sy \<in> {0, 1, 2, 3}. \<exists>sx \<in> {0, 1, 2, 3}.
                    shape_bit shape sy sx \<and> cy = y p + sy \<and> cx = x p + sx
              then uint (b' (cy, cx)) = type p + 1
              else b' (cy, cx) = b (cy, cx))"
proof -
  from assms obtain shape where s: "tetromino p = Some shape"
    and c: "\<not> collision_rows b p shape [0, 1, 2, 3]"
    by (auto simp: check_collision_def split: option.splits)
  define T where "T = targets p shape [0, 1, 2, 3]"
  define b' :: board where "b' = (\<lambda>c. if c \<in> T then word_of_int (type p + 1) else b c)"
  have "\<forall>c \<in> targets p shape [0, 1, 2, 3]. in_board c"
    using no_collision_targets [OF c] by blast
  then have "lock_rows p shape [0, 1, 2, 3] b = Some b'"
    unfolding b'_def T_def by (rule lock_rows_spec)
  then have l: "lock_piece b p = Some b'"
    by (simp add: lock_piece_def s)
  have t: "uint (word_of_int (type p + 1) :: cell) = type p + 1"
    using tetromino_range [OF s] colour_tag by blast
  have "if \<exists>sy \<in> {0, 1, 2, 3}. \<exists>sx \<in> {0, 1, 2, 3}.
                    shape_bit shape sy sx \<and> cy = y p + sy \<and> cx = x p + sx
              then uint (b' (cy, cx)) = type p + 1
              else b' (cy, cx) = b (cy, cx)" for cy cx
  proof (cases "(cy, cx) \<in> T")
    case True
    then have "b' (cy, cx) = word_of_int (type p + 1)" by (simp only: b'_def if_True)
    with t True show ?thesis unfolding T_def targets_iff by (simp only: if_True)
  next
    case False
    then have "b' (cy, cx) = b (cy, cx)" by (simp only: b'_def if_False)
    with False show ?thesis unfolding T_def targets_iff by (simp only: if_False)
  qed
  with s l show ?thesis by blast
qed

theorem lock_piece_footprint_witness:
  "check_collision (\<lambda>_. 0) \<lparr>x = 8, y = 8, type = 0, rotation = 0, direction = 0\<rparr> = Some False
   \<and> (\<exists>b'. lock_piece (\<lambda>_. 0) \<lparr>x = 8, y = 8, type = 0, rotation = 0, direction = 0\<rparr> = Some b'
         \<and> uint (b' (9, 8)) = 1 \<and> uint (b' (9, 11)) = 1 \<and> b' (8, 8) = 0 \<and> b' (9, 12) = 0)"
proof -
  let ?p = "\<lparr>x = 8, y = 8, type = 0, rotation = 0, direction = 0\<rparr>"
  have free: "check_collision (\<lambda>_. 0) ?p = Some False"
    by (simp add: check_collision_def tetromino_def TETROMINOS_def shape_bit_def
          BOARD_WIDTH_def BOARD_HEIGHT_def BLACK_def)
  from lock_piece_footprint [OF free]
  obtain shape b' where s: "tetromino ?p = Some shape"
    and l: "lock_piece (\<lambda>_. 0) ?p = Some b'"
    and f: "\<And>cy cx. if \<exists>sy \<in> {0, 1, 2, 3}. \<exists>sx \<in> {0, 1, 2, 3}.
                    shape_bit shape sy sx \<and> cy = y ?p + sy \<and> cx = x ?p + sx
              then uint (b' (cy, cx)) = type ?p + 1
              else b' (cy, cx) = (\<lambda>_. 0) (cy, cx)"
    by blast
  from s have shape: "shape = 0x0F00"
    by (simp add: tetromino_def TETROMINOS_def)
  have "uint (b' (9, 8)) = 1"
    using f [of 9 8] by (simp add: shape shape_bit_def)
  moreover have "uint (b' (9, 11)) = 1"
    using f [of 9 11] by (simp add: shape shape_bit_def)
  moreover have "b' (8, 8) = 0"
    using f [of 8 8] by (simp add: shape shape_bit_def)
  moreover have "b' (9, 12) = 0"
    using f [of 9 12] by (simp add: shape shape_bit_def)
  ultimately show ?thesis using free l by simp
qed

section \<open>Properties of rotation\<close>

lemma next_rotation:
  assumes "r \<in> {0, 1, 2, 3::int}"
  shows "(r + 1) smod 4 = (r + 1) mod 4" and "(r + 1) mod 4 \<in> {0, 1, 2, 3}"
proof -
  from assms consider "r = 0" | "r = 1" | "r = 2" | "r = 3" by auto
  then show "(r + 1) smod 4 = (r + 1) mod 4"
    by cases (simp_all add: signed_modulo_int_def)
  from assms have "0 \<le> (r + 1) mod 4" "(r + 1) mod 4 < 4" by simp_all
  then show "(r + 1) mod 4 \<in> {0, 1, 2, 3}" by auto
qed

lemma rotate_piece_accept:
  assumes "r \<in> {0, 1, 2, 3}" "check_collision b (p\<lparr>rotation := (r + 1) mod 4\<rparr>) = Some False"
  shows "rotate_piece b (p\<lparr>rotation := r\<rparr>) = Some (p\<lparr>rotation := (r + 1) mod 4\<rparr>)"
  using assms(2) by (simp add: rotate_piece_def next_rotation(1) [OF assms(1)])

lemma rotate_piece_reject:
  assumes "r \<in> {0, 1, 2, 3}" "check_collision b (p\<lparr>rotation := (r + 1) mod 4\<rparr>) = Some True"
  shows "rotate_piece b (p\<lparr>rotation := r\<rparr>) = Some (p\<lparr>rotation := r\<rparr>)"
  using assms(2) by (simp add: rotate_piece_def next_rotation(1) [OF assms(1)])

text \<open>
  C8. For every board and every piece in one of the 4 rotation states: a rotation that
  the collision checker accepts at the unchanged position advances the rotation state by
  1 modulo 4 and changes nothing else; a rotation that it rejects leaves the piece as it
  was; and when all four rotation states of the piece are free of collisions at its
  position, four rotations in a row give back the piece, rotation and position included.
\<close>

theorem rotate_piece_cycle:
  assumes "0 \<le> rotation p" "rotation p < 4"
  shows "(check_collision b (p\<lparr>rotation := (rotation p + 1) mod 4\<rparr>) = Some False \<longrightarrow>
            rotate_piece b p = Some (p\<lparr>rotation := (rotation p + 1) mod 4\<rparr>))
       \<and> (check_collision b (p\<lparr>rotation := (rotation p + 1) mod 4\<rparr>) = Some True \<longrightarrow>
            rotate_piece b p = Some p)
       \<and> ((\<forall>r \<in> {0, 1, 2, 3}. check_collision b (p\<lparr>rotation := r\<rparr>) = Some False) \<longrightarrow>
            rotate_piece b p \<bind> rotate_piece b \<bind> rotate_piece b \<bind> rotate_piece b = Some p)"
proof -
  from assms have rot: "rotation p \<in> {0, 1, 2, 3}" by auto
  have self: "p\<lparr>rotation := rotation p\<rparr> = p" by simp
  have a: "check_collision b (p\<lparr>rotation := (rotation p + 1) mod 4\<rparr>) = Some False \<longrightarrow>
            rotate_piece b p = Some (p\<lparr>rotation := (rotation p + 1) mod 4\<rparr>)"
  proof
    assume "check_collision b (p\<lparr>rotation := (rotation p + 1) mod 4\<rparr>) = Some False"
    from rotate_piece_accept [OF rot this]
    show "rotate_piece b p = Some (p\<lparr>rotation := (rotation p + 1) mod 4\<rparr>)"
      by (simp only: self)
  qed
  have r: "check_collision b (p\<lparr>rotation := (rotation p + 1) mod 4\<rparr>) = Some True \<longrightarrow>
            rotate_piece b p = Some p"
  proof
    assume "check_collision b (p\<lparr>rotation := (rotation p + 1) mod 4\<rparr>) = Some True"
    from rotate_piece_reject [OF rot this]
    show "rotate_piece b p = Some p"
      by (simp only: self)
  qed
  have c: "rotate_piece b p \<bind> rotate_piece b \<bind> rotate_piece b \<bind> rotate_piece b = Some p"
    if free: "\<forall>r \<in> {0, 1, 2, 3}. check_collision b (p\<lparr>rotation := r\<rparr>) = Some False"
  proof -
    have step: "rotate_piece b (p\<lparr>rotation := r\<rparr>) = Some (p\<lparr>rotation := (r + 1) mod 4\<rparr>)"
      if "r \<in> {0, 1, 2, 3}" for r
    proof (rule rotate_piece_accept [OF that])
      from free next_rotation(2) [OF that]
      show "check_collision b (p\<lparr>rotation := (r + 1) mod 4\<rparr>) = Some False"
        by (rule bspec)
    qed
    have s0: "rotate_piece b (p\<lparr>rotation := 0\<rparr>) = Some (p\<lparr>rotation := 1\<rparr>)"
      using step [of 0] by simp
    have s1: "rotate_piece b (p\<lparr>rotation := 1\<rparr>) = Some (p\<lparr>rotation := 2\<rparr>)"
      using step [of 1] by simp
    have s2: "rotate_piece b (p\<lparr>rotation := 2\<rparr>) = Some (p\<lparr>rotation := 3\<rparr>)"
      using step [of 2] by simp
    have s3: "rotate_piece b (p\<lparr>rotation := 3\<rparr>) = Some (p\<lparr>rotation := 0\<rparr>)"
      using step [of 3] by simp
    have four: "rotate_piece b (p\<lparr>rotation := r\<rparr>) \<bind> rotate_piece b \<bind> rotate_piece b
                  \<bind> rotate_piece b = Some (p\<lparr>rotation := r\<rparr>)"
      if "r \<in> {0, 1, 2, 3}" for r
    proof -
      from that consider "r = 0" | "r = 1" | "r = 2" | "r = 3" by auto
      then show ?thesis
        by cases (simp_all only: s0 s1 s2 s3 bind.bind_lunit)
    qed
    from four [OF rot] show ?thesis by (simp only: self)
  qed
  from c have c': "(\<forall>r \<in> {0, 1, 2, 3}. check_collision b (p\<lparr>rotation := r\<rparr>) = Some False) \<longrightarrow>
            rotate_piece b p \<bind> rotate_piece b \<bind> rotate_piece b \<bind> rotate_piece b = Some p"
    by (rule impI)
  show ?thesis
    by (rule conjI [OF a conjI [OF r c']])
qed

theorem rotate_piece_cycle_witness:
  "rotate_piece (\<lambda>_. 0) \<lparr>x = 8, y = 8, type = 0, rotation = 0, direction = 0\<rparr>
     = Some \<lparr>x = 8, y = 8, type = 0, rotation = 1, direction = 0\<rparr>
   \<and> rotate_piece (\<lambda>_. 0) \<lparr>x = 8, y = 8, type = 0, rotation = 0, direction = 0\<rparr>
       \<bind> rotate_piece (\<lambda>_. 0) \<bind> rotate_piece (\<lambda>_. 0) \<bind> rotate_piece (\<lambda>_. 0)
     = Some \<lparr>x = 8, y = 8, type = 0, rotation = 0, direction = 0\<rparr>
   \<and> check_collision (\<lambda>_. 0) \<lparr>x = 17, y = 8, type = 0, rotation = 2, direction = 0\<rparr> = Some True
   \<and> rotate_piece (\<lambda>_. 0) \<lparr>x = 17, y = 8, type = 0, rotation = 1, direction = 0\<rparr>
     = Some \<lparr>x = 17, y = 8, type = 0, rotation = 1, direction = 0\<rparr>"
proof -
  have free: "\<forall>r \<in> {0, 1, 2, 3}. check_collision (\<lambda>_. 0)
       (\<lparr>x = 8, y = 8, type = 0, rotation = 0, direction = 0\<rparr>\<lparr>rotation := r\<rparr>) = Some False"
    by (simp add: check_collision_def tetromino_def TETROMINOS_def shape_bit_def
          BOARD_WIDTH_def BOARD_HEIGHT_def BLACK_def)
  have hit: "check_collision (\<lambda>_. 0) \<lparr>x = 17, y = 8, type = 0, rotation = 2, direction = 0\<rparr> = Some True"
    by (simp add: check_collision_def tetromino_def TETROMINOS_def shape_bit_def
          BOARD_WIDTH_def BOARD_HEIGHT_def BLACK_def)
  have c1: "rotate_piece (\<lambda>_. 0) \<lparr>x = 8, y = 8, type = 0, rotation = 0, direction = 0\<rparr>
     = Some \<lparr>x = 8, y = 8, type = 0, rotation = 1, direction = 0\<rparr>"
    using rotate_piece_cycle [of "\<lparr>x = 8, y = 8, type = 0, rotation = 0, direction = 0\<rparr>" "\<lambda>_. 0"]
      free by simp
  have c2: "rotate_piece (\<lambda>_. 0) \<lparr>x = 8, y = 8, type = 0, rotation = 0, direction = 0\<rparr>
       \<bind> rotate_piece (\<lambda>_. 0) \<bind> rotate_piece (\<lambda>_. 0) \<bind> rotate_piece (\<lambda>_. 0)
     = Some \<lparr>x = 8, y = 8, type = 0, rotation = 0, direction = 0\<rparr>"
    by (rule rotate_piece_cycle [of "\<lparr>x = 8, y = 8, type = 0, rotation = 0, direction = 0\<rparr>" "\<lambda>_. 0",
          THEN conjunct2, THEN conjunct2, THEN mp, OF _ _ free]) simp_all
  have c3: "rotate_piece (\<lambda>_. 0) \<lparr>x = 17, y = 8, type = 0, rotation = 1, direction = 0\<rparr>
     = Some \<lparr>x = 17, y = 8, type = 0, rotation = 1, direction = 0\<rparr>"
    using rotate_piece_cycle [of "\<lparr>x = 17, y = 8, type = 0, rotation = 1, direction = 0\<rparr>" "\<lambda>_. 0"]
      hit by simp
  show ?thesis
    by (rule conjI [OF c1 conjI [OF c2 conjI [OF hit c3]]])
qed

section \<open>Termination of the gravity resolver\<close>

lemma finite_cells: "finite ({0..<20::int} \<times> {0..<20::int})"
  by simp

lemma in_board_cells: "in_board c \<longleftrightarrow> c \<in> {0..<20} \<times> {0..<20}"
  by (cases c) (simp add: in_board_def)

lemma good_move_neq: "good_move src dst \<Longrightarrow> src \<noteq> dst"
  by (auto simp: good_move_def)

lemma potential_move:
  assumes g: "good_move src dst" and s: "b src \<noteq> BLACK" and d: "b dst = BLACK"
  shows "Suc (potential (b(dst := b src, src := BLACK))) = potential b"
proof -
  let ?C = "{0..<20::int} \<times> {0..<20::int}"
  let ?b' = "b(dst := b src, src := BLACK)"
  let ?f = "\<lambda>b c. if b c = BLACK then 0 else weight c"
  from g have sC: "src \<in> ?C" and dC: "dst \<in> ?C" and w: "weight src = Suc (weight dst)"
    and ne: "src \<noteq> dst"
    by (simp_all add: good_move_def in_board_cells good_move_neq)
  have dC': "dst \<in> ?C - {src}" using dC ne by simp
  have fin: "finite (?C - {src})" by simp
  have rest: "sum (?f ?b') (?C - {src} - {dst}) = sum (?f b) (?C - {src} - {dst})"
    by (rule sum.cong) auto
  have "potential ?b' = ?f ?b' src + (?f ?b' dst + sum (?f ?b') (?C - {src} - {dst}))"
    unfolding potential_def
    by (simp only: sum.remove [OF finite_cells sC] sum.remove [OF fin dC'])
  also have "\<dots> = weight dst + sum (?f b) (?C - {src} - {dst})"
    using ne s by (simp add: rest)
  finally have 1: "potential ?b' = weight dst + sum (?f b) (?C - {src} - {dst})" .
  have "potential b = ?f b src + (?f b dst + sum (?f b) (?C - {src} - {dst}))"
    unfolding potential_def
    by (simp only: sum.remove [OF finite_cells sC] sum.remove [OF fin dC'])
  also have "\<dots> = weight src + sum (?f b) (?C - {src} - {dst})"
    using s d by simp
  finally have 2: "potential b = weight src + sum (?f b) (?C - {src} - {dst})" .
  from 1 2 w show ?thesis by simp
qed

lemma conserving_fall_step:
  assumes "good_move src dst"
  shows "conserving (fall_step src dst)"
  unfolding conserving_def
proof (intro allI)
  fix b n
  show "int (potential (fst (fall_step src dst (b, n)))) + snd (fall_step src dst (b, n))
      = int (potential b) + n"
  proof (cases "b src \<noteq> BLACK \<and> b dst = BLACK")
    case True
    then have "fall_step src dst (b, n) = (b(dst := b src, src := BLACK), n + 1)"
      by (simp add: fall_step_def)
    moreover from True potential_move [OF assms, of b]
    have "Suc (potential (b(dst := b src, src := BLACK))) = potential b" by blast
    ultimately show ?thesis by simp
  next
    case False
    then have "fall_step src dst (b, n) = (b, n)"
      by (auto simp: fall_step_def)
    then show ?thesis by simp
  qed
qed

lemma conserving_fold:
  assumes "\<forall>a \<in> set as. conserving (F a)"
  shows "conserving (fold F as)"
  using assms
proof (induction as)
  case Nil
  show ?case by (simp add: conserving_def)
next
  case (Cons a as)
  then have a: "conserving (F a)" and r: "conserving (fold F as)" by simp_all
  show ?case
    unfolding conserving_def
  proof (intro allI)
    fix b n
    obtain b1 n1 where s: "F a (b, n) = (b1, n1)" by (cases "F a (b, n)")
    from a s have "int (potential b1) + n1 = int (potential b) + n"
      unfolding conserving_def by (metis fst_conv snd_conv)
    moreover from r have "int (potential (fst (fold F as (b1, n1)))) + snd (fold F as (b1, n1))
        = int (potential b1) + n1"
      unfolding conserving_def by blast
    ultimately show "int (potential (fst (fold F (a # as) (b, n)))) + snd (fold F (a # as) (b, n))
        = int (potential b) + n"
      by (simp add: s)
  qed
qed

lemma conserving_fold2:
  assumes "\<forall>i \<in> set is. \<forall>j \<in> set js. good_move (src i j) (dst i j)"
  shows "conserving (fold (\<lambda>i. fold (\<lambda>j. fall_step (src i j) (dst i j)) js) is)"
  using assms by (intro conserving_fold ballI conserving_fall_step) blast

lemma good_up: "cy \<in> {1..9} \<Longrightarrow> cx \<in> {0..19} \<Longrightarrow> good_move (cy, cx) (cy - 1, cx)"
  by (auto simp: good_move_def in_board_def weight_def)

lemma good_down: "cy \<in> {10..18} \<Longrightarrow> cx \<in> {0..19} \<Longrightarrow> good_move (cy, cx) (cy + 1, cx)"
  by (auto simp: good_move_def in_board_def weight_def)

lemma good_right: "cy \<in> {0..19} \<Longrightarrow> cx \<in> {10..18} \<Longrightarrow> good_move (cy, cx) (cy, cx + 1)"
  by (auto simp: good_move_def in_board_def weight_def)

lemma good_left: "cy \<in> {0..19} \<Longrightarrow> cx \<in> {1..9} \<Longrightarrow> good_move (cy, cx) (cy, cx - 1)"
  by (auto simp: good_move_def in_board_def weight_def)

lemma loop_ranges:
  "set [1..centerY - 1] = {1..9}"
  "set (rev [centerY..BOARD_HEIGHT - 2]) = {10..18}"
  "set (rev [centerX..BOARD_WIDTH - 2]) = {10..18}"
  "set [1..centerX - 1] = {1..9}"
  "set [0..BOARD_WIDTH - 1] = {0..19}"
  "set [0..BOARD_HEIGHT - 1] = {0..19}"
  "set [0..centerY - 1] = {0..9}"
  "set [centerY..BOARD_HEIGHT - 1] = {10..19}"
  unfolding set_rev set_upto BOARD_WIDTH_def BOARD_HEIGHT_def centerX_def centerY_def
  by simp_all

lemma conserving_fall_up: "conserving fall_up"
  unfolding fall_up_def
  by (rule conserving_fold2) (simp only: loop_ranges, blast intro: good_up)

lemma conserving_fall_down: "conserving fall_down"
  unfolding fall_down_def
  by (rule conserving_fold2) (simp only: loop_ranges, blast intro: good_down)

lemma conserving_fall_right:
  assumes "set rows \<subseteq> {0..19}"
  shows "conserving (fall_right rows)"
  unfolding fall_right_def
proof (rule conserving_fold2, intro ballI)
  fix i j assume "i \<in> set (rev [centerX..BOARD_WIDTH - 2])" "j \<in> set rows"
  with assms have "i \<in> {10..18}" "j \<in> {0..19}"
    by (auto simp only: loop_ranges)
  then show "good_move (j, i) (j, i + 1)" by (rule good_right [rotated])
qed

lemma conserving_fall_left:
  assumes "set rows \<subseteq> {0..19}"
  shows "conserving (fall_left rows)"
  unfolding fall_left_def
proof (rule conserving_fold2, intro ballI)
  fix i j assume "i \<in> set [1..centerX - 1]" "j \<in> set rows"
  with assms have "i \<in> {1..9}" "j \<in> {0..19}"
    by (auto simp only: loop_ranges)
  then show "good_move (j, i) (j, i - 1)" by (rule good_left [rotated])
qed

lemma conserving_id: "conserving (\<lambda>s. s)"
  by (simp add: conserving_def)

lemma conserving_comp:
  assumes "conserving F" "conserving G"
  shows "conserving (\<lambda>s. G (F s))"
  unfolding conserving_def
proof (intro allI)
  fix b n
  obtain b1 n1 where s: "F (b, n) = (b1, n1)" by (cases "F (b, n)")
  from assms(1) have "int (potential (fst (F (b, n)))) + snd (F (b, n)) = int (potential b) + n"
    unfolding conserving_def by blast
  then have "int (potential b1) + n1 = int (potential b) + n" by (simp add: s)
  moreover from assms(2) have "int (potential (fst (G (b1, n1)))) + snd (G (b1, n1))
        = int (potential b1) + n1"
    unfolding conserving_def by blast
  ultimately show "int (potential (fst (G (F (b, n))))) + snd (G (F (b, n))) = int (potential b) + n"
    by (simp add: s)
qed

lemma conserving_if:
  "conserving F \<Longrightarrow> conserving G \<Longrightarrow> conserving (\<lambda>s. if P then F s else G s)"
  by (cases P) simp_all

lemma gravity_sweep_conserves:
  "int (potential (fst (gravity_sweep r c b))) + snd (gravity_sweep r c b) = int (potential b)"
proof -
  have top: "set [0..centerY - 1] \<subseteq> {0..19}" and bot: "set [centerY..BOARD_HEIGHT - 1] \<subseteq> {0..19}"
    by (simp_all only: loop_ranges) auto
  define F1 where "F1 = (\<lambda>s. if r \<noteq> -1 then (if r < centerY then fall_up s else fall_down s) else s)"
  define F2 where "F2 = (\<lambda>s. if c \<ge> centerX then fall_right [0..centerY - 1] s
                         else fall_left [0..centerY - 1] s)"
  define F3 where "F3 = (\<lambda>s. if c \<ge> centerX then fall_right [centerY..BOARD_HEIGHT - 1] s
                         else fall_left [centerY..BOARD_HEIGHT - 1] s)"
  define F where "F = (\<lambda>s. if c \<noteq> -1 then F3 (F2 (F1 s)) else F1 s)"
  have c1: "conserving F1"
    unfolding F1_def
    by (intro conserving_if conserving_fall_up conserving_fall_down conserving_id)
  have c2: "conserving F2"
    unfolding F2_def
    by (intro conserving_if conserving_fall_right [OF top] conserving_fall_left [OF top])
  have c3: "conserving F3"
    unfolding F3_def
    by (intro conserving_if conserving_fall_right [OF bot] conserving_fall_left [OF bot])
  have cF: "conserving F"
    unfolding F_def
    by (intro conserving_if conserving_comp [OF conserving_comp [OF c1 c2] c3] c1)
  have "gravity_sweep r c b = F (b, 0)"
    by (simp add: gravity_sweep_def F_def F1_def F2_def F3_def Let_def)
  moreover from cF have "int (potential (fst (F (b, 0)))) + snd (F (b, 0)) = int (potential b) + 0"
    unfolding conserving_def by blast
  ultimately show ?thesis by simp
qed

lemma apply_gravity_returns: "\<exists>b'. apply_gravity b r c = Some b'"
proof (induction "potential b" arbitrary: b rule: less_induct)
  case less
  obtain b1 n where s: "gravity_sweep r c b = (b1, n)" by (cases "gravity_sweep r c b")
  with gravity_sweep_conserves [of r c b] have e: "int (potential b1) + n = int (potential b)"
    by simp
  show ?case
  proof (cases "n > 0")
    case True
    with e have "potential b1 < potential b" by linarith
    from less [OF this] obtain b' where "apply_gravity b1 r c = Some b'" by blast
    with s True have "apply_gravity b r c = Some b'"
      by (subst apply_gravity.simps) simp
    then show ?thesis by blast
  next
    case False
    with s have "apply_gravity b r c = Some b1"
      by (subst apply_gravity.simps) simp
    then show ?thesis by blast
  qed
qed

section \<open>The fixed point of the gravity resolver\<close>

lemma quiet_fall_step: "quiet (fall_step src dst) {(src, dst)}"
  unfolding quiet_def
proof (intro allI)
  fix b n
  show "n \<le> snd (fall_step src dst (b, n)) \<and>
        (snd (fall_step src dst (b, n)) = n \<longrightarrow>
           fst (fall_step src dst (b, n)) = b \<and>
           (\<forall>m \<in> {(src, dst)}. b (fst m) \<noteq> BLACK \<longrightarrow> b (snd m) \<noteq> BLACK))"
  proof (cases "b src \<noteq> BLACK \<and> b dst = BLACK")
    case True
    then have "fall_step src dst (b, n) = (b(dst := b src, src := BLACK), n + 1)"
      by (simp add: fall_step_def)
    then show ?thesis by simp
  next
    case False
    then have "fall_step src dst (b, n) = (b, n)"
      by (auto simp: fall_step_def)
    with False show ?thesis by auto
  qed
qed

lemma quiet_id: "quiet (\<lambda>s. s) {}"
  by (simp add: quiet_def)

lemma quiet_comp:
  assumes "quiet F M" "quiet G N"
  shows "quiet (\<lambda>s. G (F s)) (M \<union> N)"
  unfolding quiet_def
proof (intro allI)
  fix b n
  obtain b1 n1 where s: "F (b, n) = (b1, n1)" by (cases "F (b, n)")
  obtain b2 n2 where t: "G (b1, n1) = (b2, n2)" by (cases "G (b1, n1)")
  from assms(1) have f: "n \<le> snd (F (b, n)) \<and>
        (snd (F (b, n)) = n \<longrightarrow>
           fst (F (b, n)) = b \<and> (\<forall>m \<in> M. b (fst m) \<noteq> BLACK \<longrightarrow> b (snd m) \<noteq> BLACK))"
    unfolding quiet_def by blast
  from assms(2) have g: "n1 \<le> snd (G (b1, n1)) \<and>
        (snd (G (b1, n1)) = n1 \<longrightarrow>
           fst (G (b1, n1)) = b1 \<and> (\<forall>m \<in> N. b1 (fst m) \<noteq> BLACK \<longrightarrow> b1 (snd m) \<noteq> BLACK))"
    unfolding quiet_def by blast
  from f have f1: "n \<le> n1"
    and f2: "n1 = n \<Longrightarrow> b1 = b \<and> (\<forall>m \<in> M. b (fst m) \<noteq> BLACK \<longrightarrow> b (snd m) \<noteq> BLACK)"
    by (simp_all add: s)
  from g have g1: "n1 \<le> n2"
    and g2: "n2 = n1 \<Longrightarrow> b2 = b1 \<and> (\<forall>m \<in> N. b1 (fst m) \<noteq> BLACK \<longrightarrow> b1 (snd m) \<noteq> BLACK)"
    by (simp_all add: t)
  have "n \<le> n2" using f1 g1 by simp
  moreover have "b2 = b \<and> (\<forall>m \<in> M \<union> N. b (fst m) \<noteq> BLACK \<longrightarrow> b (snd m) \<noteq> BLACK)"
    if "n2 = n"
  proof -
    from that f1 g1 have e: "n1 = n" "n2 = n1" by simp_all
    from f2 [OF e(1)] g2 [OF e(2)] show ?thesis by blast
  qed
  ultimately show "n \<le> snd (G (F (b, n))) \<and>
        (snd (G (F (b, n))) = n \<longrightarrow>
           fst (G (F (b, n))) = b \<and>
           (\<forall>m \<in> M \<union> N. b (fst m) \<noteq> BLACK \<longrightarrow> b (snd m) \<noteq> BLACK))"
    by (simp add: s t)
qed

lemma quiet_fold:
  assumes "\<forall>a \<in> set as. quiet (F a) (M a)"
  shows "quiet (fold F as) (\<Union>a \<in> set as. M a)"
  using assms
proof (induction as)
  case Nil
  show ?case using quiet_id by (simp add: id_def)
next
  case (Cons a as)
  then have a: "quiet (F a) (M a)" and r: "quiet (fold F as) (\<Union>a \<in> set as. M a)"
    by simp_all
  have "quiet (\<lambda>s. fold F as (F a s)) (M a \<union> (\<Union>a \<in> set as. M a))"
    by (rule quiet_comp [OF a r])
  moreover have "fold F (a # as) = (\<lambda>s. fold F as (F a s))"
    by (rule ext) simp
  moreover have "(\<Union>a \<in> set (a # as). M a) = M a \<union> (\<Union>a \<in> set as. M a)"
    by simp
  ultimately show ?case by (simp only:)
qed

lemma quiet_fold2:
  "quiet (fold (\<lambda>i. fold (\<lambda>j. fall_step (src i j) (dst i j)) js) is)
     (\<Union>i \<in> set is. \<Union>j \<in> set js. {(src i j, dst i j)})"
  by (intro quiet_fold ballI quiet_fall_step)

lemma quiet_mono: "quiet F M \<Longrightarrow> N \<subseteq> M \<Longrightarrow> quiet F N"
  unfolding quiet_def by blast

lemma quiet_fall_up: "quiet fall_up moves_up"
proof -
  have "moves_up \<subseteq> (\<Union>i \<in> set [1..centerY - 1]. \<Union>j \<in> set [0..BOARD_WIDTH - 1]. {((i, j), (i - 1, j))})"
    unfolding loop_ranges moves_up_def by auto
  with quiet_fold2 [of "\<lambda>i j. (i, j)" "\<lambda>i j. (i - 1, j)"] show ?thesis
    unfolding fall_up_def by (rule quiet_mono)
qed

lemma quiet_fall_down: "quiet fall_down moves_down"
proof -
  have "moves_down \<subseteq> (\<Union>i \<in> set (rev [centerY..BOARD_HEIGHT - 2]). \<Union>j \<in> set [0..BOARD_WIDTH - 1]. {((i, j), (i + 1, j))})"
    unfolding loop_ranges moves_down_def by auto
  with quiet_fold2 [of "\<lambda>i j. (i, j)" "\<lambda>i j. (i + 1, j)"] show ?thesis
    unfolding fall_down_def by (rule quiet_mono)
qed

lemma quiet_fall_right:
  "quiet (fall_right rows) ((\<lambda>(cy, cx). ((cy, cx), (cy, cx + 1))) ` (set rows \<times> {10..18}))"
proof -
  have "(\<lambda>(cy, cx). ((cy, cx), (cy, cx + 1))) ` (set rows \<times> {10..18})
     \<subseteq> (\<Union>i \<in> set (rev [centerX..BOARD_WIDTH - 2]). \<Union>j \<in> set rows. {((j, i), (j, i + 1))})"
    unfolding loop_ranges by auto
  with quiet_fold2 [of "\<lambda>i j. (j, i)" "\<lambda>i j. (j, i + 1)"] show ?thesis
    unfolding fall_right_def by (rule quiet_mono)
qed

lemma quiet_fall_left:
  "quiet (fall_left rows) ((\<lambda>(cy, cx). ((cy, cx), (cy, cx - 1))) ` (set rows \<times> {1..9}))"
proof -
  have "(\<lambda>(cy, cx). ((cy, cx), (cy, cx - 1))) ` (set rows \<times> {1..9})
     \<subseteq> (\<Union>i \<in> set [1..centerX - 1]. \<Union>j \<in> set rows. {((j, i), (j, i - 1))})"
    unfolding loop_ranges by auto
  with quiet_fold2 [of "\<lambda>i j. (j, i)" "\<lambda>i j. (j, i - 1)"] show ?thesis
    unfolding fall_left_def by (rule quiet_mono)
qed

lemma halves: "{0..9} \<union> {10..19} = {0..19::int}"
  by auto

lemma quiet_fall_right_both:
  "quiet (\<lambda>s. fall_right [centerY..BOARD_HEIGHT - 1] (fall_right [0..centerY - 1] s)) moves_right"
proof -
  have "moves_right \<subseteq> (\<lambda>(cy, cx). ((cy, cx), (cy, cx + 1))) ` (set [0..centerY - 1] \<times> {10..18})
     \<union> (\<lambda>(cy, cx). ((cy, cx), (cy, cx + 1))) ` (set [centerY..BOARD_HEIGHT - 1] \<times> {10..18})"
    unfolding loop_ranges moves_right_def halves [symmetric] by blast
  with quiet_comp [OF quiet_fall_right quiet_fall_right] show ?thesis
    by (rule quiet_mono)
qed

lemma quiet_fall_left_both:
  "quiet (\<lambda>s. fall_left [centerY..BOARD_HEIGHT - 1] (fall_left [0..centerY - 1] s)) moves_left"
proof -
  have "moves_left \<subseteq> (\<lambda>(cy, cx). ((cy, cx), (cy, cx - 1))) ` (set [0..centerY - 1] \<times> {1..9})
     \<union> (\<lambda>(cy, cx). ((cy, cx), (cy, cx - 1))) ` (set [centerY..BOARD_HEIGHT - 1] \<times> {1..9})"
    unfolding loop_ranges moves_left_def halves [symmetric] by blast
  with quiet_comp [OF quiet_fall_left quiet_fall_left] show ?thesis
    by (rule quiet_mono)
qed

lemma quiet_gravity_sweep:
  "\<exists>F. quiet F (sweep_moves r c) \<and> (\<forall>b. gravity_sweep r c b = F (b, 0))"
proof -
  define F1 where "F1 = (\<lambda>s. if r \<noteq> -1 then (if r < centerY then fall_up s else fall_down s) else s)"
  define M1 where "M1 = (if r = -1 then {} else if r < 10 then moves_up else moves_down)"
  define F2 where "F2 = (\<lambda>s. if c \<noteq> -1 then
       (if c \<ge> centerX then fall_right [centerY..BOARD_HEIGHT - 1] (fall_right [0..centerY - 1] s)
        else fall_left [centerY..BOARD_HEIGHT - 1] (fall_left [0..centerY - 1] s)) else s)"
  define M2 where "M2 = (if c = -1 then {} else if c \<ge> 10 then moves_right else moves_left)"
  have q1: "quiet F1 M1"
    unfolding F1_def M1_def
    using quiet_id quiet_fall_up quiet_fall_down by (simp add: centerY_def BOARD_HEIGHT_def)
  have q2: "quiet F2 M2"
    unfolding F2_def M2_def
    using quiet_id quiet_fall_right_both quiet_fall_left_both
    by (simp add: centerX_def BOARD_WIDTH_def)
  have "quiet (\<lambda>s. F2 (F1 s)) (sweep_moves r c)"
    using quiet_comp [OF q1 q2] by (simp only: sweep_moves_def M1_def M2_def)
  moreover have "\<forall>b. gravity_sweep r c b = F2 (F1 (b, 0))"
    by (simp add: gravity_sweep_def F1_def F2_def Let_def)
  ultimately show ?thesis by blast
qed

lemma gravity_sweep_quiet:
  "0 \<le> snd (gravity_sweep r c b)"
  "snd (gravity_sweep r c b) = 0 \<Longrightarrow> fst (gravity_sweep r c b) = b"
  "snd (gravity_sweep r c b) = 0 \<Longrightarrow> m \<in> sweep_moves r c \<Longrightarrow> b (fst m) \<noteq> BLACK \<Longrightarrow> b (snd m) \<noteq> BLACK"
proof -
  from quiet_gravity_sweep [of r c] obtain F where q: "quiet F (sweep_moves r c)"
    and e: "gravity_sweep r c b = F (b, 0)" by blast
  from q have *: "0 \<le> snd (F (b, 0)) \<and>
        (snd (F (b, 0)) = 0 \<longrightarrow>
           fst (F (b, 0)) = b \<and> (\<forall>m \<in> sweep_moves r c. b (fst m) \<noteq> BLACK \<longrightarrow> b (snd m) \<noteq> BLACK))"
    unfolding quiet_def by blast
  from * show "0 \<le> snd (gravity_sweep r c b)" by (simp add: e)
  from * show "snd (gravity_sweep r c b) = 0 \<Longrightarrow> fst (gravity_sweep r c b) = b" by (simp add: e)
  from * show "snd (gravity_sweep r c b) = 0 \<Longrightarrow> m \<in> sweep_moves r c \<Longrightarrow> b (fst m) \<noteq> BLACK \<Longrightarrow> b (snd m) \<noteq> BLACK"
    by (simp add: e)
qed

text \<open>The board that the resolver returns is one on which a sweep moves nothing.\<close>

lemma apply_gravity_fixed:
  "apply_gravity b r c = Some b' \<Longrightarrow> gravity_sweep r c b' = (b', 0)"
proof (induction "potential b" arbitrary: b rule: less_induct)
  case less
  obtain b1 n where s: "gravity_sweep r c b = (b1, n)" by (cases "gravity_sweep r c b")
  with gravity_sweep_conserves [of r c b] have e: "int (potential b1) + n = int (potential b)"
    by simp
  show ?case
  proof (cases "n > 0")
    case True
    with e have lt: "potential b1 < potential b" by linarith
    from s True have "apply_gravity b r c = apply_gravity b1 r c"
      by (subst apply_gravity.simps) simp
    with less.prems have "apply_gravity b1 r c = Some b'" by simp
    from less.hyps [OF lt this] show ?thesis .
  next
    case False
    with s have "apply_gravity b r c = Some b1"
      by (subst apply_gravity.simps) simp
    with less.prems have b1: "b1 = b'" by simp
    from gravity_sweep_quiet(1) [of r c b] s False have n: "n = 0" by simp
    with gravity_sweep_quiet(2) [of r c b] s have "b1 = b" by simp
    with s n b1 show ?thesis by simp
  qed
qed

lemma chain_low:
  fixes P :: "int \<Rightarrow> bool"
  assumes step: "\<And>i. lo < i \<Longrightarrow> i \<le> hi \<Longrightarrow> P i \<Longrightarrow> P (i - 1)"
    and "lo \<le> j" "j \<le> i" "i \<le> hi" "P i"
  shows "P j"
proof -
  have "i \<le> hi \<longrightarrow> P i \<longrightarrow> P j" using \<open>j \<le> i\<close>
  proof (induction i rule: int_ge_induct)
    case base
    show ?case by simp
  next
    case (step k)
    show ?case
    proof (intro impI)
      assume "k + 1 \<le> hi" "P (k + 1)"
      with assms(1) [of "k + 1"] step.hyps \<open>lo \<le> j\<close> have "P k" by simp
      with step.IH \<open>k + 1 \<le> hi\<close> show "P j" by simp
    qed
  qed
  with assms show ?thesis by blast
qed

lemma chain_high:
  fixes P :: "int \<Rightarrow> bool"
  assumes step: "\<And>i. lo \<le> i \<Longrightarrow> i < hi \<Longrightarrow> P i \<Longrightarrow> P (i + 1)"
    and "lo \<le> i" "i \<le> j" "j \<le> hi" "P i"
  shows "P j"
proof -
  have "j \<le> hi \<longrightarrow> P j" using \<open>i \<le> j\<close>
  proof (induction j rule: int_ge_induct)
    case base
    show ?case using \<open>P i\<close> by simp
  next
    case (step k)
    show ?case
    proof (intro impI)
      assume "k + 1 \<le> hi"
      with step.IH have "P k" by simp
      with assms(1) [of k] step.hyps \<open>lo \<le> i\<close> \<open>k + 1 \<le> hi\<close> show "P (k + 1)" by simp
    qed
  qed
  with assms show ?thesis by blast
qed

lemma settled_move:
  assumes "apply_gravity b r c = Some b'" "m \<in> sweep_moves r c" "b' (fst m) \<noteq> BLACK"
  shows "b' (snd m) \<noteq> BLACK"
proof -
  from apply_gravity_fixed [OF assms(1)] have "snd (gravity_sweep r c b') = 0" by simp
  from gravity_sweep_quiet(3) [OF this assms(2,3)] show ?thesis .
qed

lemma settled_up:
  assumes g: "apply_gravity b r c = Some b'" and r: "r \<noteq> -1" "r < centerY"
    and i: "cx \<in> {0..<BOARD_WIDTH}" "cy \<in> {0..<centerY}" "cy' \<in> {0..<cy}"
    and o: "b' (cy, cx) \<noteq> BLACK"
  shows "b' (cy', cx) \<noteq> BLACK"
proof -
  have step: "b' (k - 1, cx) \<noteq> BLACK" if "0 < k" "k \<le> 9" "b' (k, cx) \<noteq> BLACK" for k
  proof -
    from that i(1) have "(k, cx) \<in> {1..9} \<times> {0..19}" by (simp add: BOARD_WIDTH_def)
    then have "((k, cx), (k - 1, cx)) \<in> moves_up" unfolding moves_up_def by (rule image_eqI [rotated]) simp
    with r have "((k, cx), (k - 1, cx)) \<in> sweep_moves r c"
      by (simp add: sweep_moves_def centerY_def BOARD_HEIGHT_def)
    from settled_move [OF g this] that(3) show ?thesis by simp
  qed
  from i have "0 \<le> cy'" "cy' \<le> cy" "cy \<le> 9"
    by (simp_all add: centerY_def BOARD_HEIGHT_def)
  from chain_low [of 0 9 "\<lambda>k. b' (k, cx) \<noteq> BLACK", OF step this o] show ?thesis .
qed

lemma settled_down:
  assumes g: "apply_gravity b r c = Some b'" and r: "r \<noteq> -1" "centerY \<le> r"
    and i: "cx \<in> {0..<BOARD_WIDTH}" "cy \<in> {centerY..<BOARD_HEIGHT}" "cy' \<in> {cy<..<BOARD_HEIGHT}"
    and o: "b' (cy, cx) \<noteq> BLACK"
  shows "b' (cy', cx) \<noteq> BLACK"
proof -
  have step: "b' (k + 1, cx) \<noteq> BLACK" if "10 \<le> k" "k < 19" "b' (k, cx) \<noteq> BLACK" for k
  proof -
    from that i(1) have "(k, cx) \<in> {10..18} \<times> {0..19}" by (simp add: BOARD_WIDTH_def)
    then have "((k, cx), (k + 1, cx)) \<in> moves_down" unfolding moves_down_def by (rule image_eqI [rotated]) simp
    with r have "((k, cx), (k + 1, cx)) \<in> sweep_moves r c"
      by (simp add: sweep_moves_def centerY_def BOARD_HEIGHT_def)
    from settled_move [OF g this] that(3) show ?thesis by simp
  qed
  from i have "10 \<le> cy" "cy \<le> cy'" "cy' \<le> 19"
    by (simp_all add: centerY_def BOARD_HEIGHT_def)
  from chain_high [of 10 19 "\<lambda>k. b' (k, cx) \<noteq> BLACK", OF step this o] show ?thesis .
qed

lemma settled_right:
  assumes g: "apply_gravity b r c = Some b'" and r: "c \<noteq> -1" "centerX \<le> c"
    and i: "cy \<in> {0..<BOARD_HEIGHT}" "cx \<in> {centerX..<BOARD_WIDTH}" "cx' \<in> {cx<..<BOARD_WIDTH}"
    and o: "b' (cy, cx) \<noteq> BLACK"
  shows "b' (cy, cx') \<noteq> BLACK"
proof -
  have step: "b' (cy, k + 1) \<noteq> BLACK" if "10 \<le> k" "k < 19" "b' (cy, k) \<noteq> BLACK" for k
  proof -
    from that i(1) have "(cy, k) \<in> {0..19} \<times> {10..18}" by (simp add: BOARD_HEIGHT_def)
    then have "((cy, k), (cy, k + 1)) \<in> moves_right" unfolding moves_right_def by (rule image_eqI [rotated]) simp
    with r have "((cy, k), (cy, k + 1)) \<in> sweep_moves r c"
      by (simp add: sweep_moves_def centerX_def BOARD_WIDTH_def)
    from settled_move [OF g this] that(3) show ?thesis by simp
  qed
  from i have "10 \<le> cx" "cx \<le> cx'" "cx' \<le> 19"
    by (simp_all add: centerX_def BOARD_WIDTH_def)
  from chain_high [of 10 19 "\<lambda>k. b' (cy, k) \<noteq> BLACK", OF step this o] show ?thesis .
qed

lemma settled_left:
  assumes g: "apply_gravity b r c = Some b'" and r: "c \<noteq> -1" "c < centerX"
    and i: "cy \<in> {0..<BOARD_HEIGHT}" "cx \<in> {0..<centerX}" "cx' \<in> {0..<cx}"
    and o: "b' (cy, cx) \<noteq> BLACK"
  shows "b' (cy, cx') \<noteq> BLACK"
proof -
  have step: "b' (cy, k - 1) \<noteq> BLACK" if "0 < k" "k \<le> 9" "b' (cy, k) \<noteq> BLACK" for k
  proof -
    from that i(1) have "(cy, k) \<in> {0..19} \<times> {1..9}" by (simp add: BOARD_HEIGHT_def)
    then have "((cy, k), (cy, k - 1)) \<in> moves_left" unfolding moves_left_def by (rule image_eqI [rotated]) simp
    with r have "((cy, k), (cy, k - 1)) \<in> sweep_moves r c"
      by (simp add: sweep_moves_def centerX_def BOARD_WIDTH_def)
    from settled_move [OF g this] that(3) show ?thesis by simp
  qed
  from i have "0 \<le> cx'" "cx' \<le> cx" "cx \<le> 9"
    by (simp_all add: centerX_def BOARD_WIDTH_def)
  from chain_low [of 0 9 "\<lambda>k. b' (cy, k) \<noteq> BLACK", OF step this o] show ?thesis .
qed

lemmas sweep_defs = gravity_sweep_def fall_up_def fall_down_def fall_right_def fall_left_def
  fall_step_def centerX_def centerY_def BOARD_WIDTH_def BOARD_HEIGHT_def BLACK_def

lemma sweep_B0: "gravity_sweep 3 12 B0 = (B1, 3)"
  by (simp add: sweep_defs B0_def B1_def fun_eq_iff upto.simps)

lemma sweep_B1: "gravity_sweep 3 12 B1 = (B1, 0)"
  by (simp add: sweep_defs B1_def fun_eq_iff upto.simps)

lemma sweep_B2: "gravity_sweep 15 3 B2 = (B3, 3)"
  by (simp add: sweep_defs B2_def B3_def fun_eq_iff upto.simps)

lemma sweep_B3: "gravity_sweep 15 3 B3 = (B3, 0)"
  by (simp add: sweep_defs B3_def fun_eq_iff upto.simps)

lemma apply_gravity_B0: "apply_gravity B0 3 12 = Some B1"
  by (subst apply_gravity.simps, simp add: sweep_B0, subst apply_gravity.simps, simp add: sweep_B1)

lemma apply_gravity_B2: "apply_gravity B2 15 3 = Some B3"
  by (subst apply_gravity.simps, simp add: sweep_B2, subst apply_gravity.simps, simp add: sweep_B3)

text \<open>
  C3. When the resolver returns a board, that board is settled under every rule that the
  arguments select. Row cleared above the centre: in every column, an occupied cell of
  the rows 0 to 9 has no empty cell between it and row 0 (in particular not directly
  above it). Row cleared at or below the centre: an occupied cell of the rows 10 to 19
  has no empty cell between it and row 19. Column cleared at or right of the centre: in
  every row, an occupied cell of the columns 10 to 19 has no empty cell between it and
  column 19. Column cleared left of the centre: an occupied cell of the columns 0 to 9
  has no empty cell between it and column 0.
\<close>

theorem apply_gravity_settled:
  assumes "apply_gravity b clearedRow clearedCol = Some b'"
  shows
    "(clearedRow \<noteq> -1 \<and> clearedRow < centerY \<longrightarrow>
        (\<forall>cx \<in> {0..<BOARD_WIDTH}. \<forall>cy \<in> {0..<centerY}. \<forall>cy' \<in> {0..<cy}.
           b' (cy, cx) \<noteq> BLACK \<longrightarrow> b' (cy', cx) \<noteq> BLACK))
   \<and> (clearedRow \<noteq> -1 \<and> centerY \<le> clearedRow \<longrightarrow>
        (\<forall>cx \<in> {0..<BOARD_WIDTH}. \<forall>cy \<in> {centerY..<BOARD_HEIGHT}. \<forall>cy' \<in> {cy<..<BOARD_HEIGHT}.
           b' (cy, cx) \<noteq> BLACK \<longrightarrow> b' (cy', cx) \<noteq> BLACK))
   \<and> (clearedCol \<noteq> -1 \<and> centerX \<le> clearedCol \<longrightarrow>
        (\<forall>cy \<in> {0..<BOARD_HEIGHT}. \<forall>cx \<in> {centerX..<BOARD_WIDTH}. \<forall>cx' \<in> {cx<..<BOARD_WIDTH}.
           b' (cy, cx) \<noteq> BLACK \<longrightarrow> b' (cy, cx') \<noteq> BLACK))
   \<and> (clearedCol \<noteq> -1 \<and> clearedCol < centerX \<longrightarrow>
        (\<forall>cy \<in> {0..<BOARD_HEIGHT}. \<forall>cx \<in> {0..<centerX}. \<forall>cx' \<in> {0..<cx}.
           b' (cy, cx) \<noteq> BLACK \<longrightarrow> b' (cy, cx') \<noteq> BLACK))"
  using settled_up [OF assms] settled_down [OF assms] settled_right [OF assms]
    settled_left [OF assms]
  by (intro conjI impI ballI) (elim conjE, assumption)+

theorem apply_gravity_settled_witness:
  "apply_gravity B0 3 12 = Some B1 \<and> B1 (1, 19) \<noteq> BLACK \<and> B1 (0, 19) \<noteq> BLACK
     \<and> B1 (0, 18) \<noteq> BLACK
   \<and> apply_gravity B2 15 3 = Some B3 \<and> B3 (18, 0) \<noteq> BLACK \<and> B3 (19, 0) \<noteq> BLACK
     \<and> B3 (19, 1) \<noteq> BLACK"
proof -
  note up = apply_gravity_settled [OF apply_gravity_B0, THEN conjunct1, rule_format, of 19 1 0]
  note right = apply_gravity_settled [OF apply_gravity_B0, THEN conjunct2, THEN conjunct2,
      THEN conjunct1, rule_format, of 0 18 19]
  note down = apply_gravity_settled [OF apply_gravity_B2, THEN conjunct2, THEN conjunct1,
      rule_format, of 0 18 19]
  note left = apply_gravity_settled [OF apply_gravity_B2, THEN conjunct2, THEN conjunct2,
      THEN conjunct2, rule_format, of 19 1 0]
  have a: "B1 (1, 19) \<noteq> BLACK" "B1 (0, 18) \<noteq> BLACK"
    by (simp_all add: B1_def BLACK_def)
  have c: "B3 (18, 0) \<noteq> BLACK" "B3 (19, 1) \<noteq> BLACK"
    by (simp_all add: B3_def BLACK_def)
  have "B1 (0, 19) \<noteq> BLACK"
    by (rule up) (simp_all add: a centerY_def BOARD_WIDTH_def BOARD_HEIGHT_def)
  moreover have "B1 (0, 19) \<noteq> BLACK"
    by (rule right) (simp_all add: a centerX_def BOARD_WIDTH_def BOARD_HEIGHT_def)
  moreover have "B3 (19, 0) \<noteq> BLACK"
    by (rule down) (simp_all add: c centerY_def BOARD_WIDTH_def BOARD_HEIGHT_def)
  moreover have "B3 (19, 0) \<noteq> BLACK"
    by (rule left) (simp_all add: c centerX_def BOARD_WIDTH_def BOARD_HEIGHT_def)
  ultimately show ?thesis
    using apply_gravity_B0 apply_gravity_B2 a c by simp
qed

text \<open>
  C4. The resolver returns for every board and every pair of arguments: after finitely
  many sweeps it reaches a board on which a sweep moves no cell, and returns that board.
\<close>

theorem apply_gravity_terminates:
  "\<exists>b'. apply_gravity b clearedRow clearedCol = Some b'
     \<and> gravity_sweep clearedRow clearedCol b' = (b', 0)"
  using apply_gravity_returns [of b clearedRow clearedCol] apply_gravity_fixed by blast

theorem apply_gravity_terminates_witness:
  "\<exists>b'. apply_gravity B0 3 12 = Some b' \<and> gravity_sweep 3 12 b' = (b', 0)"
  by (rule apply_gravity_terminates)

section \<open>The two scans of the line clear resolver\<close>

lemma row_complete_iff: "row_complete b cy cxs \<longleftrightarrow> (\<forall>cx \<in> set cxs. b (cy, cx) \<noteq> BLACK)"
  by (induction cxs) auto

lemma col_complete_iff: "col_complete b cx cys \<longleftrightarrow> (\<forall>cy \<in> set cys. b (cy, cx) \<noteq> BLACK)"
  by (induction cys) auto

lemma fold_clear:
  "fold (\<lambda>i b. b(k i := BLACK)) is b = (\<lambda>c. if c \<in> k ` set is then BLACK else b c)"
proof (induction "is" arbitrary: b)
  case Nil
  show ?case by simp
next
  case (Cons i "is")
  have "fold (\<lambda>i b. b(k i := BLACK)) (i # is) b = fold (\<lambda>i b. b(k i := BLACK)) is (b(k i := BLACK))"
    by simp
  also have "\<dots> = (\<lambda>c. if c \<in> k ` set is then BLACK else (b(k i := BLACK)) c)"
    by (rule Cons.IH)
  also have "\<dots> = (\<lambda>c. if c \<in> k ` set (i # is) then BLACK else b c)"
    by (rule ext) simp
  finally show ?case .
qed

lemma clear_row_eq:
  "clear_row cy b = (\<lambda>c. if fst c = cy \<and> snd c \<in> {0..19} then BLACK else b c)"
proof -
  have "clear_row cy b = (\<lambda>c. if c \<in> (\<lambda>cx. (cy, cx)) ` {0..19} then BLACK else b c)"
    unfolding clear_row_def fold_clear loop_ranges ..
  also have "\<dots> = (\<lambda>c. if fst c = cy \<and> snd c \<in> {0..19} then BLACK else b c)"
    by (rule ext) (auto simp: image_iff)
  finally show ?thesis .
qed

lemma clear_col_eq:
  "clear_col cx b = (\<lambda>c. if snd c = cx \<and> fst c \<in> {0..19} then BLACK else b c)"
proof -
  have "clear_col cx b = (\<lambda>c. if c \<in> (\<lambda>cy. (cy, cx)) ` {0..19} then BLACK else b c)"
    unfolding clear_col_def fold_clear loop_ranges ..
  also have "\<dots> = (\<lambda>c. if snd c = cx \<and> fst c \<in> {0..19} then BLACK else b c)"
    by (rule ext) (auto simp: image_iff)
  finally show ?thesis .
qed

lemma full_row_other:
  assumes "\<forall>cx. b' (cy, cx) = b (cy, cx)"
  shows "full_row b' cy = full_row b cy"
  using assms by (simp add: full_row_def row_complete_iff)

lemma fold_scan_row:
  assumes "distinct cys"
  shows "fold scan_row cys (b, n, l) =
     ((\<lambda>c. if fst c \<in> set cys \<and> full_row b (fst c) \<and> snd c \<in> {0..19} then BLACK else b c),
      n + int (length (filter (full_row b) cys)),
      last (l # filter (full_row b) cys))"
  using assms
proof (induction cys arbitrary: b n l)
  case Nil
  show ?case by simp
next
  case (Cons cy cys)
  from Cons.prems have d: "distinct cys" and notin: "cy \<notin> set cys" by simp_all
  show ?case
  proof (cases "full_row b cy")
    case False
    then have "scan_row cy (b, n, l) = (b, n, l)"
      by (simp add: scan_row_def full_row_def)
    then have "fold scan_row (cy # cys) (b, n, l) = fold scan_row cys (b, n, l)" by simp
    also note Cons.IH [OF d, of b n l]
    finally show ?thesis using False by (auto simp: fun_eq_iff)
  next
    case True
    define b1 where "b1 = clear_row cy b"
    have same: "full_row b1 k = full_row b k" if "k \<in> set cys" for k
    proof (rule full_row_other)
      from that notin have "k \<noteq> cy" by blast
      then show "\<forall>cx. b1 (k, cx) = b (k, cx)" by (simp add: b1_def clear_row_eq)
    qed
    then have f: "filter (full_row b1) cys = filter (full_row b) cys"
      by (simp cong: filter_cong)
    from True have "scan_row cy (b, n, l) = (b1, n + 1, cy)"
      by (simp add: scan_row_def full_row_def b1_def)
    then have "fold scan_row (cy # cys) (b, n, l) = fold scan_row cys (b1, n + 1, cy)" by simp
    also note Cons.IH [OF d, of b1 "n + 1" cy]
    finally have "fold scan_row (cy # cys) (b, n, l) =
       ((\<lambda>c. if fst c \<in> set cys \<and> full_row b1 (fst c) \<and> snd c \<in> {0..19} then BLACK else b1 c),
        n + 1 + int (length (filter (full_row b1) cys)),
        last (cy # filter (full_row b1) cys))" .
    moreover have "(\<lambda>c. if fst c \<in> set cys \<and> full_row b1 (fst c) \<and> snd c \<in> {0..19} then BLACK else b1 c)
       = (\<lambda>c. if fst c \<in> set (cy # cys) \<and> full_row b (fst c) \<and> snd c \<in> {0..19} then BLACK else b c)"
      using True same by (auto simp: fun_eq_iff b1_def clear_row_eq)
    ultimately show ?thesis using True by (simp add: f)
  qed
qed


lemma full_col_other:
  assumes "\<forall>cy. b' (cy, cx) = b (cy, cx)"
  shows "full_col b' cx = full_col b cx"
  using assms by (simp add: full_col_def col_complete_iff)

lemma fold_scan_col:
  assumes "distinct cxs"
  shows "fold scan_col cxs (b, n, l) =
     ((\<lambda>c. if snd c \<in> set cxs \<and> full_col b (snd c) \<and> fst c \<in> {0..19} then BLACK else b c),
      n + int (length (filter (full_col b) cxs)),
      last (l # filter (full_col b) cxs))"
  using assms
proof (induction cxs arbitrary: b n l)
  case Nil
  show ?case by simp
next
  case (Cons cx cxs)
  from Cons.prems have d: "distinct cxs" and notin: "cx \<notin> set cxs" by simp_all
  show ?case
  proof (cases "full_col b cx")
    case False
    then have "scan_col cx (b, n, l) = (b, n, l)"
      by (simp add: scan_col_def full_col_def)
    then have "fold scan_col (cx # cxs) (b, n, l) = fold scan_col cxs (b, n, l)" by simp
    also note Cons.IH [OF d, of b n l]
    finally show ?thesis using False by (auto simp: fun_eq_iff)
  next
    case True
    define b1 where "b1 = clear_col cx b"
    have same: "full_col b1 k = full_col b k" if "k \<in> set cxs" for k
    proof (rule full_col_other)
      from that notin have "k \<noteq> cx" by blast
      then show "\<forall>cy. b1 (cy, k) = b (cy, k)" by (simp add: b1_def clear_col_eq)
    qed
    then have f: "filter (full_col b1) cxs = filter (full_col b) cxs"
      by (simp cong: filter_cong)
    from True have "scan_col cx (b, n, l) = (b1, n + 1, cx)"
      by (simp add: scan_col_def full_col_def b1_def)
    then have "fold scan_col (cx # cxs) (b, n, l) = fold scan_col cxs (b1, n + 1, cx)" by simp
    also note Cons.IH [OF d, of b1 "n + 1" cx]
    finally have "fold scan_col (cx # cxs) (b, n, l) =
       ((\<lambda>c. if snd c \<in> set cxs \<and> full_col b1 (snd c) \<and> fst c \<in> {0..19} then BLACK else b1 c),
        n + 1 + int (length (filter (full_col b1) cxs)),
        last (cx # filter (full_col b1) cxs))" .
    moreover have "(\<lambda>c. if snd c \<in> set cxs \<and> full_col b1 (snd c) \<and> fst c \<in> {0..19} then BLACK else b1 c)
       = (\<lambda>c. if snd c \<in> set (cx # cxs) \<and> full_col b (snd c) \<and> fst c \<in> {0..19} then BLACK else b c)"
      using True same by (auto simp: fun_eq_iff b1_def clear_col_eq)
    ultimately show ?thesis using True by (simp add: f)
  qed
qed

lemma length_filter_upto:
  "int (length (filter P [0..19])) = int (card {k \<in> {0..19}. P k})"
proof -
  have "distinct (filter P [0..19])" by simp
  then have "length (filter P [0..19]) = card (set (filter P [0..19]))"
    by (rule distinct_card [symmetric])
  also have "set (filter P [0..19]) = {k \<in> {0..19}. P k}" by auto
  finally show ?thesis by simp
qed

text \<open>The board between the two scans, as a function of the board before the pass.\<close>

lemma scan_rows_eq:
  "scan_rows b =
     ((\<lambda>c. if fst c \<in> {0..19} \<and> full_row b (fst c) \<and> snd c \<in> {0..19} then BLACK else b c),
      int (card {cy \<in> {0..19}. full_row b cy}),
      last (-1 # filter (full_row b) [0..19]))"
proof -
  have "distinct [0..19::int]" by simp
  from fold_scan_row [OF this, of b 0 "-1"] show ?thesis
    unfolding scan_rows_def BOARD_HEIGHT_def by (simp add: length_filter_upto)
qed

text \<open>
  A column of the board between the two scans has no empty cell exactly when it had none
  before the pass and the first scan has cleared no row.
\<close>

lemma full_col_after_rows:
  assumes "cx \<in> {0..19}"
  shows "full_col (fst (scan_rows b)) cx \<longleftrightarrow>
           full_col b cx \<and> (\<forall>cy \<in> {0..19}. \<not> full_row b cy)"
proof (cases "\<exists>cy \<in> {0..19}. full_row b cy")
  case True
  then obtain cy where cy: "cy \<in> {0..19}" "full_row b cy" by blast
  with assms have "fst (scan_rows b) (cy, cx) = BLACK" by (simp add: scan_rows_eq)
  with cy(1) have "\<not> full_col (fst (scan_rows b)) cx"
    unfolding full_col_def col_complete_iff loop_ranges by blast
  with True show ?thesis by blast
next
  case False
  then have "fst (scan_rows b) = b" by (auto simp: scan_rows_eq fun_eq_iff)
  with False show ?thesis by simp
qed

lemma scan_lines_eq:
  "scan_lines b =
     ((\<lambda>c. if fst c \<in> {0..19} \<and> snd c \<in> {0..19} \<and>
               (full_row b (fst c) \<or> full_col b (snd c) \<and> (\<forall>cy \<in> {0..19}. \<not> full_row b cy))
            then BLACK else b c),
      int (card {cy \<in> {0..19}. full_row b cy})
        + int (card {cx \<in> {0..19}. full_col b cx \<and> (\<forall>cy \<in> {0..19}. \<not> full_row b cy)}),
      last (-1 # filter (full_row b) [0..19]),
      last (-1 # filter (full_col (fst (scan_rows b))) [0..19]))"
proof -
  define b1 where "b1 = fst (scan_rows b)"
  define n1 where "n1 = int (card {cy \<in> {0..19}. full_row b cy})"
  define r where "r = last (-1 # filter (full_row b) [0..19])"
  have rows: "scan_rows b = (b1, n1, r)"
    by (simp add: b1_def n1_def r_def scan_rows_eq)
  have b1: "b1 = (\<lambda>c. if fst c \<in> {0..19} \<and> full_row b (fst c) \<and> snd c \<in> {0..19} then BLACK else b c)"
    by (simp add: b1_def scan_rows_eq)
  have col: "full_col b1 cx \<longleftrightarrow> full_col b cx \<and> (\<forall>cy \<in> {0..19}. \<not> full_row b cy)"
    if "cx \<in> {0..19}" for cx
    using full_col_after_rows [OF that, of b] by (simp only: b1_def)
  have "distinct [0..19::int]" by simp
  from fold_scan_col [OF this, of b1 n1 "-1"]
  have cols: "fold scan_col [0..19] (b1, n1, -1) =
     ((\<lambda>c. if snd c \<in> {0..19} \<and> full_col b1 (snd c) \<and> fst c \<in> {0..19} then BLACK else b1 c),
      n1 + int (card {cx \<in> {0..19}. full_col b1 cx}),
      last (-1 # filter (full_col b1) [0..19]))"
    by (simp add: length_filter_upto)
  have e1: "{cx \<in> {0..19}. full_col b1 cx}
      = {cx \<in> {0..19}. full_col b cx \<and> (\<forall>cy \<in> {0..19}. \<not> full_row b cy)}"
    using col by blast
  have e2: "(\<lambda>c. if snd c \<in> {0..19} \<and> full_col b1 (snd c) \<and> fst c \<in> {0..19} then BLACK else b1 c)
     = (\<lambda>c. if fst c \<in> {0..19} \<and> snd c \<in> {0..19} \<and>
               (full_row b (fst c) \<or> full_col b (snd c) \<and> (\<forall>cy \<in> {0..19}. \<not> full_row b cy))
            then BLACK else b c)"
  proof (rule ext)
    fix c :: "int \<times> int"
    show "(if snd c \<in> {0..19} \<and> full_col b1 (snd c) \<and> fst c \<in> {0..19} then BLACK else b1 c)
       = (if fst c \<in> {0..19} \<and> snd c \<in> {0..19} \<and>
               (full_row b (fst c) \<or> full_col b (snd c) \<and> (\<forall>cy \<in> {0..19}. \<not> full_row b cy))
            then BLACK else b c)"
    proof (cases "snd c \<in> {0..19}")
      case True
      have b1c: "b1 c = (if fst c \<in> {0..19} \<and> full_row b (fst c) \<and> snd c \<in> {0..19}
                         then BLACK else b c)"
        by (simp add: b1)
      from col [OF True]
      have fc: "full_col b1 (snd c) \<longleftrightarrow>
          full_col b (snd c) \<and> (\<forall>cy \<in> {0..19}. \<not> full_row b cy)" .
      show ?thesis unfolding fc b1c using True by auto
    next
      case False
      have b1c: "b1 c = (if fst c \<in> {0..19} \<and> full_row b (fst c) \<and> snd c \<in> {0..19}
                         then BLACK else b c)"
        by (simp add: b1)
      show ?thesis unfolding b1c using False by auto
    qed
  qed
  have w: "[0..BOARD_WIDTH - 1] = [0..19]" by (simp add: BOARD_WIDTH_def)
  have "scan_lines b =
      (case fold scan_col [0..19] (b1, n1, -1) of
         (b2, linesCleared, lastClearedCol) \<Rightarrow> (b2, linesCleared, r, lastClearedCol))"
    unfolding scan_lines_def rows w by (simp only: prod.case)
  also have "\<dots> =
     ((\<lambda>c. if fst c \<in> {0..19} \<and> snd c \<in> {0..19} \<and>
               (full_row b (fst c) \<or> full_col b (snd c) \<and> (\<forall>cy \<in> {0..19}. \<not> full_row b cy))
            then BLACK else b c),
      n1 + int (card {cx \<in> {0..19}. full_col b cx \<and> (\<forall>cy \<in> {0..19}. \<not> full_row b cy)}),
      r,
      last (-1 # filter (full_col b1) [0..19]))"
    by (simp only: cols prod.case e1 e2)
  finally show ?thesis
    unfolding n1_def r_def b1_def .
qed

section \<open>What one pass of the line clear resolver clears\<close>

lemmas scan_defs = scan_lines_def scan_rows_def scan_row_def scan_col_def clear_row_eq
  clear_col_eq in_board_def BOARD_WIDTH_def BOARD_HEIGHT_def BLACK_def

lemma scan_X0: "scan_lines X0 = (X1, 1, 0, -1)"
  by (simp add: scan_defs X0_def X1_def upto.simps fun_eq_iff) auto?

lemma scan_rows_from_19: "scan_lines (rows_from 19) = (\<lambda>_. 0, 1, 19, -1)"
  by (simp add: scan_defs rows_from_def upto.simps fun_eq_iff) auto?

lemma scan_rows_from_16: "scan_lines (rows_from 16) = (\<lambda>_. 0, 4, 19, -1)"
  by (simp add: scan_defs rows_from_def upto.simps fun_eq_iff) auto?

lemma scan_empty: "scan_lines (\<lambda>_. 0) = (\<lambda>_. 0, 0, -1, -1)"
  by (simp add: scan_defs upto.simps)

lemma scan_rows_from_15: "scan_lines (rows_from 15) = (\<lambda>_. 0, 5, 19, -1)"
  by (simp add: scan_defs rows_from_def upto.simps fun_eq_iff) auto?


text \<open>
  What one pass clears. The rows are scanned first and the complete ones are cleared in
  place; the columns are scanned afterwards, on the board that the row scan has left.
  So a column is cleared and counted only when no row of the board before the pass is
  complete.
\<close>

lemma scan_lines_clears:
  assumes "scan_lines b = (b2, linesCleared, lastClearedRow, lastClearedCol)"
  shows "linesCleared =
           int (card {cy \<in> {0..19}. full_row b cy})
           + int (card {cx \<in> {0..19}. full_col b cx \<and> (\<forall>cy \<in> {0..19}. \<not> full_row b cy)})
       \<and> (\<forall>cy \<in> {0..19}. \<forall>cx \<in> {0..19}.
             b2 (cy, cx) =
               (if full_row b cy \<or> full_col b cx \<and> (\<forall>cy' \<in> {0..19}. \<not> full_row b cy')
                then BLACK else b (cy, cx)))
       \<and> (\<forall>cx \<in> {0..19}.
             full_col (fst (scan_rows b)) cx \<longleftrightarrow>
               full_col b cx \<and> (\<forall>cy \<in> {0..19}. \<not> full_row b cy))"
proof (intro conjI)
  from assms show "linesCleared =
           int (card {cy \<in> {0..19}. full_row b cy})
           + int (card {cx \<in> {0..19}. full_col b cx \<and> (\<forall>cy \<in> {0..19}. \<not> full_row b cy)})"
    unfolding scan_lines_eq by simp
  from assms have "b2 = (\<lambda>c. if fst c \<in> {0..19} \<and> snd c \<in> {0..19} \<and>
               (full_row b (fst c) \<or> full_col b (snd c) \<and> (\<forall>cy \<in> {0..19}. \<not> full_row b cy))
            then BLACK else b c)"
    unfolding scan_lines_eq by simp
  then show "\<forall>cy \<in> {0..19}. \<forall>cx \<in> {0..19}.
             b2 (cy, cx) =
               (if full_row b cy \<or> full_col b cx \<and> (\<forall>cy' \<in> {0..19}. \<not> full_row b cy')
                then BLACK else b (cy, cx))"
    by simp
  show "\<forall>cx \<in> {0..19}.
             full_col (fst (scan_rows b)) cx \<longleftrightarrow>
               full_col b cx \<and> (\<forall>cy \<in> {0..19}. \<not> full_row b cy)"
    using full_col_after_rows by blast
qed

text \<open>
  No pass clears on both axes: \<^verbatim>\<open>apply_gravity\<close> is never called from
  \<^verbatim>\<open>check_lines\<close> with a cleared row and a cleared column at once, although its row
  rules and its column rules are written to run in the same sweep.
\<close>

lemma scan_lines_never_both:
  assumes "scan_lines b = (b2, linesCleared, lastClearedRow, lastClearedCol)"
  shows "lastClearedRow = -1 \<or> lastClearedCol = -1"
proof (cases "filter (full_row b) [0..19] = []")
  case True
  from assms have "lastClearedRow = last (-1 # filter (full_row b) [0..19])"
    unfolding scan_lines_eq by simp
  with True show ?thesis by simp
next
  case False
  then obtain cy where "cy \<in> set (filter (full_row b) [0..19])"
    by (cases "filter (full_row b) [0..19]") auto
  then have row: "\<exists>cy \<in> {0..19}. full_row b cy" by auto
  have "\<not> full_col (fst (scan_rows b)) cx" if "cx \<in> set [0..19]" for cx
  proof -
    from that have "cx \<in> {0..19}" by simp
    from full_col_after_rows [OF this, of b] row show ?thesis by blast
  qed
  then have "filter (full_col (fst (scan_rows b))) [0..19] = []"
    by (simp only: filter_empty_conv) blast
  moreover from assms
  have "lastClearedCol = last (-1 # filter (full_col (fst (scan_rows b))) [0..19])"
    unfolding scan_lines_eq by simp
  ultimately show ?thesis by simp
qed

text \<open>
  C1 on the code. The board \<open>X0\<close> has row 0 and column 0 full, so before the pass
  neither row 0 nor column 0 has an empty cell. The pass clears row 0 and, having emptied
  the cell of column 0 in row 0, finds column 0 incomplete: it counts one line and not
  two, reports no cleared column and leaves the cells of column 0 below row 0 on the
  board.
\<close>

theorem column_full_before_pass_not_cleared:
  "full_row X0 0 \<and> full_col X0 0 \<and> scan_lines X0 = (X1, 1, 0, -1) \<and> X1 (5, 0) \<noteq> BLACK"
proof -
  have "full_row X0 0"
    by (simp add: full_row_def X0_def in_board_def BOARD_WIDTH_def BLACK_def upto.simps)
  moreover have "full_col X0 0"
    by (simp add: full_col_def X0_def in_board_def BOARD_HEIGHT_def BLACK_def upto.simps)
  moreover have "X1 (5, 0) \<noteq> BLACK"
    by (simp add: X1_def in_board_def BLACK_def)
  ultimately show ?thesis using scan_X0 by simp
qed

theorem column_full_before_pass_not_cleared_witness:
  "\<exists>b2. scan_lines X0 = (b2, 1, 0, -1) \<and> b2 (5, 0) = 1 \<and> b2 (0, 0) = 0"
  using column_full_before_pass_not_cleared by (simp add: X1_def in_board_def)

section \<open>Score and fall period\<close>

lemma check_lines_eq:
  assumes "scan_lines (board g) = (b2, linesCleared, lastClearedRow, lastClearedCol)"
  shows "\<exists>b3. check_lines g = Some (update_score linesCleared (g\<lparr>board := b3\<rparr>))"
proof (cases "lastClearedRow \<noteq> -1 \<or> lastClearedCol \<noteq> -1")
  case True
  from apply_gravity_returns [of b2 lastClearedRow lastClearedCol]
  obtain b3 where "apply_gravity b2 lastClearedRow lastClearedCol = Some b3" by blast
  with True assms have "check_lines g = Some (update_score linesCleared (g\<lparr>board := b3\<rparr>))"
    by (simp add: check_lines_def)
  then show ?thesis by blast
next
  case False
  with assms have "check_lines g = Some (update_score linesCleared (g\<lparr>board := b2\<rparr>))"
    by (simp add: check_lines_def)
  then show ?thesis by blast
qed

lemma update_score_score:
  "score (update_score n g) =
     score g + (if n = 1 then 100 else if n = 2 then 300 else if n = 3 then 500
                else if n = 4 then 800 else 0)"
  by (simp add: update_score_def Let_def SCORE_SINGLE_def SCORE_DOUBLE_def SCORE_TRIPLE_def
        SCORE_TETRIS_def)

lemma update_score_other:
  assumes "n \<notin> {1, 2, 3, 4}"
  shows "update_score n g = g"
  using assms by (simp add: update_score_def)

text \<open>
  C7. A pass that clears exactly 1, 2, 3 or 4 lines, rows and columns counted together,
  returns with exactly 100, 300, 500 or 800 added to the score.
\<close>

theorem check_lines_score:
  assumes "scan_lines (board g) = (b2, linesCleared, lastClearedRow, lastClearedCol)"
    and "linesCleared \<in> {1, 2, 3, 4}"
  shows "\<exists>g'. check_lines g = Some g' \<and>
           score g' = score g +
             (if linesCleared = 1 then 100 else if linesCleared = 2 then 300
              else if linesCleared = 3 then 500 else 800)"
proof -
  from check_lines_eq [OF assms(1)] obtain b3
    where c: "check_lines g = Some (update_score linesCleared (g\<lparr>board := b3\<rparr>))" by blast
  have "score (update_score linesCleared (g\<lparr>board := b3\<rparr>)) = score g +
             (if linesCleared = 1 then 100 else if linesCleared = 2 then 300
              else if linesCleared = 3 then 500 else 800)"
    using assms(2) by (auto simp: update_score_score)
  with c show ?thesis by blast
qed

theorem check_lines_score_witness:
  "scan_lines (rows_from 19) = (\<lambda>_. 0, 1, 19, -1)
   \<and> (\<exists>g'. check_lines (game_with (rows_from 19) 0 899999) = Some g' \<and> score g' = 100)
   \<and> scan_lines (rows_from 16) = (\<lambda>_. 0, 4, 19, -1)
   \<and> (\<exists>g'. check_lines (game_with (rows_from 16) 1000 899999) = Some g' \<and> score g' = 1800)"
proof -
  have s1: "scan_lines (board (game_with (rows_from 19) 0 899999)) = (\<lambda>_. 0, 1, 19, -1)"
    by (simp add: game_with_def scan_rows_from_19)
  have s4: "scan_lines (board (game_with (rows_from 16) 1000 899999)) = (\<lambda>_. 0, 4, 19, -1)"
    by (simp add: game_with_def scan_rows_from_16)
  have "\<exists>g'. check_lines (game_with (rows_from 19) 0 899999) = Some g' \<and> score g' = 100"
    using check_lines_score [OF s1] by (simp add: game_with_def)
  moreover have "\<exists>g'. check_lines (game_with (rows_from 16) 1000 899999) = Some g' \<and> score g' = 1800"
    using check_lines_score [OF s4] by (simp add: game_with_def)
  ultimately show ?thesis
    using scan_rows_from_19 scan_rows_from_16 by simp
qed

text \<open>
  C10. A pass whose count of complete lines is not 1, 2, 3 or 4, so every pass that
  finds 5 or more complete lines, returns with the score and the fall period as they
  were: the switch has the cases 1 to 4 and no default.
\<close>

theorem check_lines_five_or_more:
  assumes "scan_lines (board g) = (b2, linesCleared, lastClearedRow, lastClearedCol)"
    and "5 \<le> linesCleared \<or> linesCleared \<notin> {1, 2, 3, 4}"
  shows "\<exists>g'. check_lines g = Some g' \<and> score g' = score g \<and> speed g' = speed g"
proof -
  from check_lines_eq [OF assms(1)] obtain b3
    where c: "check_lines g = Some (update_score linesCleared (g\<lparr>board := b3\<rparr>))" by blast
  from assms(2) have "linesCleared \<notin> {1, 2, 3, 4}" by auto
  then have "update_score linesCleared (g\<lparr>board := b3\<rparr>) = g\<lparr>board := b3\<rparr>"
    by (rule update_score_other)
  with c show ?thesis by simp
qed

theorem check_lines_five_or_more_witness:
  "scan_lines (rows_from 15) = (\<lambda>_. 0, 5, 19, -1)
   \<and> (\<exists>g'. check_lines (game_with (rows_from 15) 700 59999) = Some g'
         \<and> score g' = 700 \<and> speed g' = 59999)
   \<and> scan_lines (\<lambda>_. 0) = (\<lambda>_. 0, 0, -1, -1)
   \<and> (\<exists>g'. check_lines (game_with (\<lambda>_. 0) 700 59999) = Some g'
         \<and> score g' = 700 \<and> speed g' = 59999)"
proof -
  have s5: "scan_lines (board (game_with (rows_from 15) 700 59999)) = (\<lambda>_. 0, 5, 19, -1)"
    by (simp add: game_with_def scan_rows_from_15)
  have s0: "scan_lines (board (game_with (\<lambda>_. 0) 700 59999)) = (\<lambda>_. 0, 0, -1, -1)"
    by (simp add: game_with_def scan_empty)
  have "\<exists>g'. check_lines (game_with (rows_from 15) 700 59999) = Some g'
         \<and> score g' = 700 \<and> speed g' = 59999"
    using check_lines_five_or_more [OF s5] by (simp add: game_with_def)
  moreover have "\<exists>g'. check_lines (game_with (\<lambda>_. 0) 700 59999) = Some g'
         \<and> score g' = 700 \<and> speed g' = 59999"
    using check_lines_five_or_more [OF s0] by (simp add: game_with_def)
  ultimately show ?thesis
    using scan_rows_from_15 scan_empty by simp
qed

lemma sweep_empty: "gravity_sweep 19 (-1) (\<lambda>_. 0) = (\<lambda>_. 0, 0)"
  by (simp add: sweep_defs upto.simps)

lemma apply_gravity_empty: "apply_gravity (\<lambda>_. 0) 19 (-1) = Some (\<lambda>_. 0)"
  by (subst apply_gravity.simps) (simp add: sweep_empty)

lemma single_pass_eq:
  "single_pass (game_with b sc sp) =
     Some (game_with (\<lambda>_. 0) (sc + 100) (if sp > 1000 then sp - (sc + 100) * 400 else sp))"
  by (simp add: single_pass_def check_lines_def game_with_def scan_rows_from_19
        apply_gravity_empty update_score_def SCORE_SINGLE_def)

text \<open>
  C2 on the code. With score 600 and fall period 59999, a pass that clears one line finds
  the fall period above 1000, raises the score to 700 and subtracts 700 * 400: the fall
  period becomes -220001. Score 600 and fall period 59999 is the state after six passes
  of one line each from the start of a game, where the score is 0 and the fall period is
  \<^verbatim>\<open>startSpeed\<close>, 899999.
\<close>

theorem check_lines_fall_period_negative:
  "check_lines (game_with (rows_from 19) 600 59999)
     = Some (game_with (\<lambda>_. 0) 700 (-220001))
   \<and> single_pass (game_with (\<lambda>_. 0) 0 899999) \<bind> single_pass \<bind> single_pass
       \<bind> single_pass \<bind> single_pass \<bind> single_pass
     = Some (game_with (\<lambda>_. 0) 600 59999)"
proof -
  have "check_lines (game_with (rows_from 19) 600 59999)
     = Some (game_with (\<lambda>_. 0) 700 (-220001))"
    by (simp add: check_lines_def game_with_def scan_rows_from_19 apply_gravity_empty
          update_score_def SCORE_SINGLE_def)
  moreover have "single_pass (game_with (\<lambda>_. 0) 0 899999) \<bind> single_pass \<bind> single_pass
       \<bind> single_pass \<bind> single_pass \<bind> single_pass
     = Some (game_with (\<lambda>_. 0) 600 59999)"
    by (simp add: single_pass_eq)
  ultimately show ?thesis by (rule conjI)
qed

theorem check_lines_fall_period_negative_witness:
  "\<exists>g'. check_lines (game_with (rows_from 19) 600 59999) = Some g'
      \<and> score g' = 700 \<and> speed g' = -220001 \<and> speed g' < 1000"
  using check_lines_fall_period_negative by (simp add: game_with_def)

section \<open>The movement tick\<close>

lemma undo_move_move_piece: "undo_move (move_piece p) = p"
  by (simp add: move_piece_def undo_move_def DIR_DOWN_def DIR_UP_def DIR_LEFT_def DIR_RIGHT_def)

lemma handle_tick_movement_free:
  assumes "check_collision (board g) (move_piece (currentPiece g)) = Some False"
  shows "handle_tick_movement g = Some (g\<lparr>currentPiece := move_piece (currentPiece g)\<rparr>)"
  using assms by (simp add: handle_tick_movement_def Let_def)

lemma handle_tick_movement_blocked:
  assumes "check_collision (board g) (move_piece (currentPiece g)) = Some True"
  shows "handle_tick_movement g =
           lock_piece (board g) (currentPiece g) \<bind>
             (\<lambda>b'. check_lines (g\<lparr>board := b'\<rparr>) \<bind> spawn_piece)"
proof (cases "lock_piece (board g) (currentPiece g)")
  case None
  with assms show ?thesis
    by (simp add: handle_tick_movement_def Let_def undo_move_move_piece)
next
  case (Some b')
  with assms show ?thesis
    by (cases "check_lines (g\<lparr>board := b'\<rparr>)")
       (simp_all add: handle_tick_movement_def Let_def undo_move_move_piece)
qed


lemma my_rand_1: "my_rand 1 = (16838, 1103527590)"
  by (simp add: my_rand_def Let_def)

lemma my_rand_2: "my_rand 1103527590 = (5758, 2524885223)"
  by (simp add: my_rand_def Let_def)

lemma lock_bottom:
  "lock_piece (\<lambda>_. 0) \<lparr>x = 8, y = 18, type = 0, rotation = 0, direction = 0\<rparr>
     = Some ((\<lambda>_. 0)((19, 8) := 1, (19, 9) := 1, (19, 10) := 1, (19, 11) := 1))"
  by (simp add: lock_piece_def tetromino_def TETROMINOS_def shape_bit_def write_cell_def
        BOARD_WIDTH_def BOARD_HEIGHT_def)

lemma scan_bottom:
  "scan_lines ((\<lambda>_. 0)((19, 8) := 1, (19, 9) := 1, (19, 10) := 1, (19, 11) := 1))
     = ((\<lambda>_. 0)((19, 8) := 1, (19, 9) := 1, (19, 10) := 1, (19, 11) := 1), 0, -1, -1)"
  by (simp add: scan_defs upto.simps)

lemma spawn_free:
  "check_collision ((\<lambda>_. 0)((19, 8) := 1, (19, 9) := 1, (19, 10) := 1, (19, 11) := 1))
     \<lparr>x = 8, y = 8, type = 3, rotation = 0, direction = 2\<rparr> = Some False"
  by (simp add: check_collision_def tetromino_def TETROMINOS_def shape_bit_def
        BOARD_WIDTH_def BOARD_HEIGHT_def BLACK_def)

lemma tick_bottom:
  "lock_piece (board (tick_game 8 18 0)) (currentPiece (tick_game 8 18 0)) \<bind>
     (\<lambda>b'. check_lines (tick_game 8 18 0\<lparr>board := b'\<rparr>) \<bind> spawn_piece)
   = Some \<lparr>board = (\<lambda>_. 0)((19, 8) := 1, (19, 9) := 1, (19, 10) := 1, (19, 11) := 1),
      currentPiece = \<lparr>x = 8, y = 8, type = 3, rotation = 0, direction = 2\<rparr>,
      gameOver = 0, score = 0, speed = 899999, randState = 2524885223\<rparr>"
  by (simp add: tick_game_def lock_bottom check_lines_def scan_bottom update_score_def
        spawn_piece_def my_rand_1 my_rand_2 spawn_free BOARD_WIDTH_def BOARD_HEIGHT_def
        signed_modulo_int_def)


text \<open>
  C6. A movement tick moves the active piece by one cell in its direction: down is
  \<open>y + 1\<close>, up is \<open>y - 1\<close>, left is \<open>x - 1\<close>, right is \<open>x + 1\<close>. When the
  collision checker accepts the moved piece, the tick ends with the moved piece. When it
  rejects the moved piece, the second switch gives back the piece of before the tick,
  position, rotation, kind and direction, and this piece is locked into the board; the
  line clear resolver and the spawn of the next piece follow.
\<close>

theorem handle_tick_movement_step:
  "(direction (currentPiece g) = DIR_DOWN \<longrightarrow>
      move_piece (currentPiece g) = (currentPiece g)\<lparr>y := y (currentPiece g) + 1\<rparr>)
   \<and> (direction (currentPiece g) = DIR_UP \<longrightarrow>
      move_piece (currentPiece g) = (currentPiece g)\<lparr>y := y (currentPiece g) - 1\<rparr>)
   \<and> (direction (currentPiece g) = DIR_LEFT \<longrightarrow>
      move_piece (currentPiece g) = (currentPiece g)\<lparr>x := x (currentPiece g) - 1\<rparr>)
   \<and> (direction (currentPiece g) = DIR_RIGHT \<longrightarrow>
      move_piece (currentPiece g) = (currentPiece g)\<lparr>x := x (currentPiece g) + 1\<rparr>)
   \<and> (check_collision (board g) (move_piece (currentPiece g)) = Some False \<longrightarrow>
      handle_tick_movement g = Some (g\<lparr>currentPiece := move_piece (currentPiece g)\<rparr>))
   \<and> (check_collision (board g) (move_piece (currentPiece g)) = Some True \<longrightarrow>
      undo_move (move_piece (currentPiece g)) = currentPiece g \<and>
      handle_tick_movement g =
        lock_piece (board g) (currentPiece g) \<bind>
          (\<lambda>b'. check_lines (g\<lparr>board := b'\<rparr>) \<bind> spawn_piece))"
proof -
  have d: "direction (currentPiece g) = DIR_DOWN \<longrightarrow>
      move_piece (currentPiece g) = (currentPiece g)\<lparr>y := y (currentPiece g) + 1\<rparr>"
    by (simp add: move_piece_def)
  have u: "direction (currentPiece g) = DIR_UP \<longrightarrow>
      move_piece (currentPiece g) = (currentPiece g)\<lparr>y := y (currentPiece g) - 1\<rparr>"
    by (simp add: move_piece_def DIR_DOWN_def DIR_UP_def)
  have l: "direction (currentPiece g) = DIR_LEFT \<longrightarrow>
      move_piece (currentPiece g) = (currentPiece g)\<lparr>x := x (currentPiece g) - 1\<rparr>"
    by (simp add: move_piece_def DIR_DOWN_def DIR_UP_def DIR_LEFT_def)
  have r: "direction (currentPiece g) = DIR_RIGHT \<longrightarrow>
      move_piece (currentPiece g) = (currentPiece g)\<lparr>x := x (currentPiece g) + 1\<rparr>"
    by (simp add: move_piece_def DIR_DOWN_def DIR_UP_def DIR_LEFT_def DIR_RIGHT_def)
  have f: "check_collision (board g) (move_piece (currentPiece g)) = Some False \<longrightarrow>
      handle_tick_movement g = Some (g\<lparr>currentPiece := move_piece (currentPiece g)\<rparr>)"
    by (rule impI) (rule handle_tick_movement_free)
  have b: "check_collision (board g) (move_piece (currentPiece g)) = Some True \<longrightarrow>
      undo_move (move_piece (currentPiece g)) = currentPiece g \<and>
      handle_tick_movement g =
        lock_piece (board g) (currentPiece g) \<bind>
          (\<lambda>b'. check_lines (g\<lparr>board := b'\<rparr>) \<bind> spawn_piece)"
    by (intro impI conjI undo_move_move_piece) (rule handle_tick_movement_blocked)
  show ?thesis
    by (rule conjI [OF d conjI [OF u conjI [OF l conjI [OF r conjI [OF f b]]]]])
qed

theorem handle_tick_movement_step_witness:
  "move_piece (currentPiece (tick_game 8 18 0))
     = \<lparr>x = 8, y = 19, type = 0, rotation = 0, direction = 0\<rparr>
   \<and> move_piece (currentPiece (tick_game 8 18 1))
     = \<lparr>x = 8, y = 17, type = 0, rotation = 0, direction = 1\<rparr>
   \<and> move_piece (currentPiece (tick_game 8 18 2))
     = \<lparr>x = 7, y = 18, type = 0, rotation = 0, direction = 2\<rparr>
   \<and> move_piece (currentPiece (tick_game 8 18 3))
     = \<lparr>x = 9, y = 18, type = 0, rotation = 0, direction = 3\<rparr>
   \<and> check_collision (board (tick_game 8 8 0)) (move_piece (currentPiece (tick_game 8 8 0)))
     = Some False
   \<and> handle_tick_movement (tick_game 8 8 0) = Some (tick_game 8 9 0)
   \<and> check_collision (board (tick_game 8 18 0)) (move_piece (currentPiece (tick_game 8 18 0)))
     = Some True
   \<and> handle_tick_movement (tick_game 8 18 0)
     = Some \<lparr>board = (\<lambda>_. 0)((19, 8) := 1, (19, 9) := 1, (19, 10) := 1, (19, 11) := 1),
          currentPiece = \<lparr>x = 8, y = 8, type = 3, rotation = 0, direction = 2\<rparr>,
          gameOver = 0, score = 0, speed = 899999, randState = 2524885223\<rparr>"
proof -
  have m0: "move_piece (currentPiece (tick_game 8 18 0))
     = \<lparr>x = 8, y = 19, type = 0, rotation = 0, direction = 0\<rparr>"
    using handle_tick_movement_step [of "tick_game 8 18 0", THEN conjunct1]
    by (simp add: tick_game_def DIR_DOWN_def)
  have m1: "move_piece (currentPiece (tick_game 8 18 1))
     = \<lparr>x = 8, y = 17, type = 0, rotation = 0, direction = 1\<rparr>"
    using handle_tick_movement_step [of "tick_game 8 18 1", THEN conjunct2, THEN conjunct1]
    by (simp add: tick_game_def DIR_UP_def)
  have m2: "move_piece (currentPiece (tick_game 8 18 2))
     = \<lparr>x = 7, y = 18, type = 0, rotation = 0, direction = 2\<rparr>"
    using handle_tick_movement_step [of "tick_game 8 18 2", THEN conjunct2, THEN conjunct2,
        THEN conjunct1]
    by (simp add: tick_game_def DIR_LEFT_def)
  have m3: "move_piece (currentPiece (tick_game 8 18 3))
     = \<lparr>x = 9, y = 18, type = 0, rotation = 0, direction = 3\<rparr>"
    using handle_tick_movement_step [of "tick_game 8 18 3", THEN conjunct2, THEN conjunct2,
        THEN conjunct2, THEN conjunct1]
    by (simp add: tick_game_def DIR_RIGHT_def)
  have free: "check_collision (board (tick_game 8 8 0)) (move_piece (currentPiece (tick_game 8 8 0)))
     = Some False"
    by (simp add: tick_game_def move_piece_def DIR_DOWN_def check_collision_def tetromino_def
          TETROMINOS_def shape_bit_def BOARD_WIDTH_def BOARD_HEIGHT_def BLACK_def)
  have hit: "check_collision (board (tick_game 8 18 0)) (move_piece (currentPiece (tick_game 8 18 0)))
     = Some True"
    by (simp add: tick_game_def move_piece_def DIR_DOWN_def check_collision_def tetromino_def
          TETROMINOS_def shape_bit_def BOARD_WIDTH_def BOARD_HEIGHT_def BLACK_def)
  have t1: "handle_tick_movement (tick_game 8 8 0) = Some (tick_game 8 9 0)"
    using handle_tick_movement_step [of "tick_game 8 8 0", THEN conjunct2, THEN conjunct2,
        THEN conjunct2, THEN conjunct2, THEN conjunct1, THEN mp, OF free]
    by (simp add: tick_game_def move_piece_def DIR_DOWN_def)
  have t2: "handle_tick_movement (tick_game 8 18 0)
     = Some \<lparr>board = (\<lambda>_. 0)((19, 8) := 1, (19, 9) := 1, (19, 10) := 1, (19, 11) := 1),
          currentPiece = \<lparr>x = 8, y = 8, type = 3, rotation = 0, direction = 2\<rparr>,
          gameOver = 0, score = 0, speed = 899999, randState = 2524885223\<rparr>"
    using handle_tick_movement_step [of "tick_game 8 18 0", THEN conjunct2, THEN conjunct2,
        THEN conjunct2, THEN conjunct2, THEN conjunct2, THEN mp, OF hit, THEN conjunct2]
    by (simp only: tick_bottom)
  show ?thesis
    by (rule conjI [OF m0 conjI [OF m1 conjI [OF m2 conjI [OF m3 conjI [OF free
          conjI [OF t1 conjI [OF hit t2]]]]]]])
qed

end
